theory Spec2Isabelle
  imports Main "HOL-Library.Sublist"
begin

section \<open>Word search: the grid index and the word locator of finder.py\<close>

subsection \<open>Python sequences: indexing with negative indices and IndexError\<close>

datatype py_error = IndexError

text \<open>
  Resolution of a Python index against a sequence: a negative index counts from the
  end, and an index outside the sequence raises IndexError.
\<close>

definition py_index :: "'a list \<Rightarrow> int \<Rightarrow> py_error + nat" where
  "py_index xs i =
     (if 0 \<le> i \<and> i < int (length xs) then Inr (nat i)
      else if - int (length xs) \<le> i \<and> i < 0 then Inr (nat (int (length xs) + i))
      else Inl IndexError)"

definition py_get :: "'a list \<Rightarrow> int \<Rightarrow> py_error + 'a" where
  "py_get xs i = (case py_index xs i of Inl e \<Rightarrow> Inl e | Inr j \<Rightarrow> Inr (xs ! j))"

definition py_set :: "'a list \<Rightarrow> int \<Rightarrow> 'a \<Rightarrow> py_error + 'a list" where
  "py_set xs i v = (case py_index xs i of Inl e \<Rightarrow> Inl e | Inr j \<Rightarrow> Inr (xs[j := v]))"

text \<open>\<^verbatim>\<open>xss[i].append(x)\<close>: the list stored at index i grows by one element.\<close>

definition append_at :: "'a list list \<Rightarrow> int \<Rightarrow> 'a \<Rightarrow> py_error + 'a list list" where
  "append_at xss i x =
     (case py_index xss i of Inl e \<Rightarrow> Inl e | Inr j \<Rightarrow> Inr (xss[j := xss ! j @ [x]]))"

subsection \<open>Location, Direction, Grid\<close>

datatype location = Location (row: int) (column: int)

datatype direction =
    UP | DOWN | LEFT | RIGHT
  | ANGLED_UP_RIGHT | ANGLED_DOWN_RIGHT | ANGLED_UP_LEFT | ANGLED_DOWN_LEFT

text \<open>
  The dataclass Grid. The field \<^verbatim>\<open>text\<close> is called \<open>grid_text\<close> here. A cell of
  \<open>highlighted\<close> is a string: one letter at first, a decorated letter once marked.
\<close>

record grid =
  grid_text :: "string list"
  columns :: "string list"
  diag_up_right :: "string list"
  diag_down_right :: "string list"
  highlighted :: "string list list"

subsection \<open>Grid.__post_init__\<close>

text \<open>The local lists of the constructor, and the overlay that it fills.\<close>

record build =
  cols :: "string list"
  diag_up :: "string list"
  diag_dn :: "string list"
  hl :: "string list list"

text \<open>The inner loop \<^verbatim>\<open>for col, letter in enumerate(line)\<close>, from column \<open>c\<close> on.\<close>

fun inner_loop :: "nat \<Rightarrow> nat \<Rightarrow> nat \<Rightarrow> string \<Rightarrow> build \<Rightarrow> py_error + build" where
  "inner_loop row_count r c [] b = Inr b"
| "inner_loop row_count r c (letter # rest) b =
     (case append_at (cols b) (int c) letter of Inl e \<Rightarrow> Inl e | Inr cs \<Rightarrow>
      case append_at (diag_up b) (int r + int c) letter of Inl e \<Rightarrow> Inl e | Inr us \<Rightarrow>
      case append_at (diag_dn b) (int c - int r + int row_count - 1) letter of
        Inl e \<Rightarrow> Inl e | Inr ds \<Rightarrow>
      case append_at (hl b) (int r) [letter] of Inl e \<Rightarrow> Inl e | Inr h \<Rightarrow>
        inner_loop row_count r (Suc c) rest
          \<lparr>cols = cs, diag_up = us, diag_dn = ds, hl = h\<rparr>)"

text \<open>The outer loop \<^verbatim>\<open>for row, line in enumerate(self.text)\<close>, from row \<open>r\<close> on.\<close>

fun outer_loop :: "nat \<Rightarrow> nat \<Rightarrow> string list \<Rightarrow> build \<Rightarrow> py_error + build" where
  "outer_loop row_count r [] b = Inr b"
| "outer_loop row_count r (line # rest) b =
     (case inner_loop row_count r 0 line (b\<lparr>hl := hl b @ [[]]\<rparr>) of
        Inl e \<Rightarrow> Inl e
      | Inr b' \<Rightarrow> outer_loop row_count (Suc r) rest b')"

text \<open>
  The constructor: \<^verbatim>\<open>len(self.text[0])\<close> raises on an empty tuple;
  \<^verbatim>\<open>range(row_count + col_count - 1)\<close> is empty when its bound is not positive.
\<close>

definition post_init :: "string list \<Rightarrow> py_error + grid" where
  "post_init txt =
     (case py_get txt 0 of Inl e \<Rightarrow> Inl e | Inr first \<Rightarrow>
      let row_count = length txt;
          col_count = length first;
          b0 = \<lparr>cols = replicate col_count [],
                diag_up = replicate (nat (int row_count + int col_count - 1)) [],
                diag_dn = replicate (nat (int row_count + int col_count - 1)) [],
                hl = []\<rparr>
      in case outer_loop row_count 0 txt b0 of Inl e \<Rightarrow> Inl e | Inr b \<Rightarrow>
           Inr \<lparr>grid_text = txt,
                columns = cols b,
                diag_up_right = map rev (diag_up b),
                diag_down_right = diag_dn b,
                highlighted = hl b\<rparr>)"

subsection \<open>find_in_group\<close>

text \<open>
  The substring search behind \<^verbatim>\<open>word in row\<close> and \<^verbatim>\<open>row.find(word)\<close>: the
  least index at which \<open>word\<close> starts in the string (the parameter \<^verbatim>\<open>row\<close> of
  \<^verbatim>\<open>find_in_group\<close> is called \<open>line\<close> here).
\<close>

fun first_index :: "string \<Rightarrow> string \<Rightarrow> nat option" where
  "first_index word [] = (if word = [] then Some 0 else None)"
| "first_index word (c # cs) =
     (if prefix word (c # cs) then Some 0 else map_option Suc (first_index word cs))"

definition str_contains :: "string \<Rightarrow> string \<Rightarrow> bool" where
  "str_contains word line = (first_index word line \<noteq> None)"

definition str_find :: "string \<Rightarrow> string \<Rightarrow> int" where
  "str_find word line = (case first_index word line of None \<Rightarrow> - 1 | Some i \<Rightarrow> int i)"

definition find_in_group :: "string \<Rightarrow> string \<Rightarrow> (int \<times> bool) option" where
  "find_in_group word line =
     (if str_contains word line then Some (str_find word line, True)
      else if str_contains word (rev line) then
        (let last_index = int (length line) - 1;
             last_col = str_find word (rev line)
         in Some (last_index - last_col, False))
      else None)"

subsection \<open>Grid.highlight\<close>

text \<open>\<^verbatim>\<open>colorama.Fore.RESET\<close>, the escape sequence ESC [ 3 9 m.\<close>

definition Fore_RESET :: string where
  "Fore_RESET = [char_of (27::nat), CHR ''['', CHR ''3'', CHR ''9'', CHR ''m'']"

fun offsets :: "direction \<Rightarrow> int \<times> int" where
  "offsets RIGHT = (0, 1)"
| "offsets LEFT = (0, - 1)"
| "offsets UP = (- 1, 0)"
| "offsets DOWN = (1, 0)"
| "offsets ANGLED_UP_RIGHT = (- 1, 1)"
| "offsets ANGLED_DOWN_LEFT = (1, - 1)"
| "offsets ANGLED_UP_LEFT = (- 1, - 1)"
| "offsets ANGLED_DOWN_RIGHT = (1, 1)"

text \<open>One iteration of \<^verbatim>\<open>for ind in range(length)\<close>.\<close>

definition highlight_cell ::
  "grid \<Rightarrow> location \<Rightarrow> int \<times> int \<Rightarrow> string \<Rightarrow> nat \<Rightarrow> py_error + grid" where
  "highlight_cell g start off color ind =
     (let r = row start + int ind * fst off;
          c = column start + int ind * snd off
      in case py_get (grid_text g) r of Inl e \<Rightarrow> Inl e | Inr line \<Rightarrow>
         case py_get line c of Inl e \<Rightarrow> Inl e | Inr letter \<Rightarrow>
         case py_index (highlighted g) r of Inl e \<Rightarrow> Inl e | Inr j \<Rightarrow>
         case py_set (highlighted g ! j) c (color @ [letter] @ Fore_RESET) of
           Inl e \<Rightarrow> Inl e
         | Inr hrow \<Rightarrow> Inr (g\<lparr>highlighted := (highlighted g)[j := hrow]\<rparr>))"

fun highlight_loop ::
  "grid \<Rightarrow> location \<Rightarrow> int \<times> int \<Rightarrow> string \<Rightarrow> nat list \<Rightarrow> py_error + grid" where
  "highlight_loop g start off color [] = Inr g"
| "highlight_loop g start off color (ind # inds) =
     (case highlight_cell g start off color ind of
        Inl e \<Rightarrow> Inl e
      | Inr g' \<Rightarrow> highlight_loop g' start off color inds)"

definition highlight ::
  "grid \<Rightarrow> location \<Rightarrow> direction \<Rightarrow> nat \<Rightarrow> string \<Rightarrow> py_error + grid" where
  "highlight g start dir len color = highlight_loop g start (offsets dir) color [0..<len]"

subsection \<open>Grid.find_word\<close>

text \<open>
  What each of the four loops of \<^verbatim>\<open>find_word\<close> makes of a hit of
  \<^verbatim>\<open>find_in_group\<close> in the view of index \<open>n\<close>: the start location and the direction.
\<close>

definition row_match :: "nat \<Rightarrow> int \<times> bool \<Rightarrow> location \<times> direction" where
  "row_match r res =
     (let col = fst res; to_right = snd res;
          direction = (if to_right then RIGHT else LEFT)
      in (Location (int r) col, direction))"

definition column_match :: "nat \<Rightarrow> int \<times> bool \<Rightarrow> location \<times> direction" where
  "column_match c res =
     (let r = fst res; down = snd res;
          direction = (if down then DOWN else UP)
      in (Location r (int c), direction))"

definition up_right_loc :: "nat \<Rightarrow> nat \<Rightarrow> int \<Rightarrow> location" where
  "up_right_loc num_rows diag index =
     (if diag < num_rows then Location (int diag - index) index
      else Location (int num_rows - index - 1) ((int diag - int num_rows) + index + 1))"

definition up_right_match :: "nat \<Rightarrow> nat \<Rightarrow> int \<times> bool \<Rightarrow> location \<times> direction" where
  "up_right_match num_rows diag res =
     (let index = fst res; forward = snd res;
          direction = (if forward then ANGLED_UP_RIGHT else ANGLED_DOWN_LEFT)
      in (up_right_loc num_rows diag index, direction))"

definition down_right_loc :: "nat \<Rightarrow> nat \<Rightarrow> int \<Rightarrow> location" where
  "down_right_loc num_rows diag index =
     (if diag < num_rows then Location (int num_rows - int diag + index - 1) index
      else Location index (int diag - int num_rows + index + 1))"

definition down_right_match :: "nat \<Rightarrow> nat \<Rightarrow> int \<times> bool \<Rightarrow> location \<times> direction" where
  "down_right_match num_rows diag res =
     (let index = fst res; forward = snd res;
          direction = (if forward then ANGLED_DOWN_RIGHT else ANGLED_UP_LEFT)
      in (down_right_loc num_rows diag index, direction))"

text \<open>
  A loop \<^verbatim>\<open>for n, text in enumerate(views)\<close> up to its first hit: the views from
  index \<open>n\<close> on, and the hit resolved by \<open>resolve\<close>. The test \<^verbatim>\<open>if result:\<close> holds
  for every result other than \<^verbatim>\<open>None\<close>, a pair being a non-empty tuple.
\<close>

fun scan ::
  "(nat \<Rightarrow> int \<times> bool \<Rightarrow> location \<times> direction) \<Rightarrow> string \<Rightarrow> nat \<Rightarrow> string list
     \<Rightarrow> (location \<times> direction) option" where
  "scan resolve word n [] = None"
| "scan resolve word n (v # vs) =
     (case find_in_group word v of
        Some res \<Rightarrow> Some (resolve n res)
      | None \<Rightarrow> scan resolve word (Suc n) vs)"

text \<open>The hit is highlighted, then returned; an IndexError of the highlighting propagates.\<close>

definition mark ::
  "grid \<Rightarrow> string \<Rightarrow> string \<Rightarrow> location \<times> direction
     \<Rightarrow> py_error + grid \<times> (location \<times> direction) option" where
  "mark g word color m =
     (case highlight g (fst m) (snd m) (length word) color of
        Inl e \<Rightarrow> Inl e
      | Inr g' \<Rightarrow> Inr (g', Some m))"

definition find_word ::
  "grid \<Rightarrow> string \<Rightarrow> string \<Rightarrow> py_error + grid \<times> (location \<times> direction) option" where
  "find_word g word color =
     (case scan row_match word 0 (grid_text g) of
        Some m \<Rightarrow> mark g word color m
      | None \<Rightarrow>
     (case scan column_match word 0 (columns g) of
        Some m \<Rightarrow> mark g word color m
      | None \<Rightarrow>
     (let num_rows = length (grid_text g) in
     (case scan (up_right_match num_rows) word 0 (diag_up_right g) of
        Some m \<Rightarrow> mark g word color m
      | None \<Rightarrow>
     (case scan (down_right_match num_rows) word 0 (diag_down_right g) of
        Some m \<Rightarrow> mark g word color m
      | None \<Rightarrow> Inr (g, None))))))"

section \<open>Notions used to state the properties\<close>

text \<open>
  An occurrence of \<open>word\<close> in \<open>line\<close> read forwards, starting at index \<open>i\<close>; and
  an occurrence read backwards, whose first letter is at index \<open>j\<close> and whose
  following letters are at \<open>j - 1\<close>, \<open>j - 2\<close>, ...
\<close>

definition forward_at :: "string \<Rightarrow> string \<Rightarrow> nat \<Rightarrow> bool" where
  "forward_at line word i \<longleftrightarrow>
     i + length word \<le> length line \<and> take (length word) (drop i line) = word"

definition backward_at :: "string \<Rightarrow> string \<Rightarrow> nat \<Rightarrow> bool" where
  "backward_at line word j \<longleftrightarrow>
     length word \<le> Suc j \<and> j < length line \<and>
     rev (take (length word) (drop (Suc j - length word) line)) = word"

text \<open>A well-formed sequence of rows: not empty, all rows as long as the first.\<close>

definition wf_rows :: "string list \<Rightarrow> bool" where
  "wf_rows rows \<longleftrightarrow> rows \<noteq> [] \<and> (\<forall>line \<in> set rows. length line = length (hd rows))"

text \<open>
  The effect of a sequence of appends \<^verbatim>\<open>bs[k].append(v)\<close>, given as the list of the
  pairs \<open>(k, v)\<close> in the order of the appends.
\<close>

definition bucket_app :: "'a list list \<Rightarrow> (nat \<times> 'a) list \<Rightarrow> 'a list list" where
  "bucket_app bs kvs =
     map (\<lambda>j. bs ! j @ map snd (filter (\<lambda>kv. fst kv = j) kvs)) [0..<length bs]"

text \<open>
  The appends that the constructor makes to one of its three lists of lists: for each
  cell, in the order of the two loops, the index \<open>key row col\<close> and the letter.
\<close>

fun keyed :: "(nat \<Rightarrow> nat \<Rightarrow> nat) \<Rightarrow> nat \<Rightarrow> string list \<Rightarrow> (nat \<times> char) list" where
  "keyed key r [] = []"
| "keyed key r (line # rest) =
     zip (map (key r) [0..<length line]) line @ keyed key (Suc r) rest"

text \<open>The letters appended to the list of index \<open>k\<close>, in order.\<close>

definition bucket :: "(nat \<Rightarrow> nat \<Rightarrow> nat) \<Rightarrow> string list \<Rightarrow> nat \<Rightarrow> string" where
  "bucket key lines k = map snd (filter (\<lambda>kv. fst kv = k) (keyed key 0 lines))"

text \<open>The Python expression \<^verbatim>\<open>text[row][col]\<close>.\<close>

definition grid_at :: "string list \<Rightarrow> location \<Rightarrow> py_error + char" where
  "grid_at rows loc =
     (case py_get rows (row loc) of Inl e \<Rightarrow> Inl e | Inr line \<Rightarrow> py_get line (column loc))"

text \<open>A location within the bounds of the grid: \<open>0 \<le> row < rows\<close> and \<open>0 \<le> col < cols\<close>.\<close>

definition in_bounds :: "string list \<Rightarrow> location \<Rightarrow> bool" where
  "in_bounds rows loc \<longleftrightarrow>
     0 \<le> row loc \<and> row loc < int (length rows) \<and>
     0 \<le> column loc \<and> column loc < int (length (hd rows))"

text \<open>
  A family of views \<open>V\<close>, with the map \<open>loc\<close> from a view index and an offset to a
  location, is a rearrangement of the grid: every position of a view holds the letter of
  the in-bounds cell that \<open>loc\<close> gives, and every cell is at exactly one position.
\<close>

definition rearranges :: "string list \<Rightarrow> string list \<Rightarrow> (nat \<Rightarrow> int \<Rightarrow> location) \<Rightarrow> bool" where
  "rearranges rows V loc \<longleftrightarrow>
     (\<forall>n<length V. \<forall>i<length (V ! n).
        in_bounds rows (loc n (int i)) \<and> grid_at rows (loc n (int i)) = Inr (V ! n ! i)) \<and>
     (\<forall>r<length rows. \<forall>c<length (hd rows).
        \<exists>!p. fst p < length V \<and> snd p < length (V ! fst p) \<and>
             loc (fst p) (int (snd p)) = Location (int r) (int c))"

text \<open>
  The grids that the constructor and \<^verbatim>\<open>find_word\<close> produce from well-formed rows: the
  text is well-formed, the three derived view families are the ones that the constructor
  builds from the text, and the overlay has the shape of the text (its cells may be
  marked already).
\<close>

definition grid_ok :: "grid \<Rightarrow> bool" where
  "grid_ok g \<longleftrightarrow>
     wf_rows (grid_text g) \<and>
     (case post_init (grid_text g) of
        Inl e \<Rightarrow> False
      | Inr g0 \<Rightarrow> columns g = columns g0 \<and> diag_up_right g = diag_up_right g0 \<and>
                 diag_down_right g = diag_down_right g0) \<and>
     map length (highlighted g) = map length (grid_text g)"

text \<open>The cell reached from \<open>start\<close> by \<open>t\<close> steps \<open>(rowStep, colStep)\<close> of the direction.\<close>

definition step_from :: "location \<Rightarrow> direction \<Rightarrow> nat \<Rightarrow> location" where
  "step_from start dir t =
     Location (row start + int t * fst (offsets dir)) (column start + int t * snd (offsets dir))"


text \<open>
  The four view families in the order in which \<^verbatim>\<open>find_word\<close> is specified to scan them,
  the views of a family, the direction table of the specification, and what it means
  for a word to occur in a view in one of the two orientations.
\<close>

datatype family = Row | Column | UpRight | DownRight

fun earlier :: "family \<Rightarrow> family list" where
  "earlier Row = []"
| "earlier Column = [Row]"
| "earlier UpRight = [Row, Column]"
| "earlier DownRight = [Row, Column, UpRight]"

fun views :: "grid \<Rightarrow> family \<Rightarrow> string list" where
  "views g Row = grid_text g"
| "views g Column = columns g"
| "views g UpRight = diag_up_right g"
| "views g DownRight = diag_down_right g"

fun family_direction :: "family \<Rightarrow> bool \<Rightarrow> direction" where
  "family_direction Row forward = (if forward then RIGHT else LEFT)"
| "family_direction Column forward = (if forward then DOWN else UP)"
| "family_direction UpRight forward = (if forward then ANGLED_UP_RIGHT else ANGLED_DOWN_LEFT)"
| "family_direction DownRight forward = (if forward then ANGLED_DOWN_RIGHT else ANGLED_UP_LEFT)"

definition occurs :: "string \<Rightarrow> string \<Rightarrow> bool" where
  "occurs word v \<longleftrightarrow> sublist word v \<or> sublist word (rev v)"

text \<open>The start location that the loop of \<^verbatim>\<open>find_word\<close> for the family computes.\<close>

fun family_location :: "grid \<Rightarrow> family \<Rightarrow> nat \<Rightarrow> int \<Rightarrow> location" where
  "family_location g Row n idx = fst (row_match n (idx, True))"
| "family_location g Column n idx = fst (column_match n (idx, True))"
| "family_location g UpRight n idx = fst (up_right_match (length (grid_text g)) n (idx, True))"
| "family_location g DownRight n idx = fst (down_right_match (length (grid_text g)) n (idx, True))"

section \<open>The substring search\<close>

lemma first_index_None_iff: "first_index w r = None \<longleftrightarrow> \<not> sublist w r"
  by (induction r) (auto simp: sublist_Cons_right)

lemma prefix_drop_iff: "i \<le> length r \<Longrightarrow> prefix w (drop i r) \<longleftrightarrow> forward_at r w i"
  unfolding forward_at_def
proof
  assume "prefix w (drop i r)"
  then obtain zs where z: "drop i r = w @ zs" by (auto simp: prefix_def)
  then have "length r - i = length w + length zs" by (metis length_append length_drop)
  moreover assume "i \<le> length r"
  ultimately show "i + length w \<le> length r \<and> take (length w) (drop i r) = w"
    using z by simp
next
  assume "i + length w \<le> length r \<and> take (length w) (drop i r) = w"
  then show "prefix w (drop i r)" by (metis take_is_prefix)
qed

lemma first_index_Some:
  "first_index w r = Some i \<Longrightarrow>
     i \<le> length r \<and> prefix w (drop i r) \<and> (\<forall>j<i. \<not> prefix w (drop j r))"
proof (induction r arbitrary: i)
  case Nil
  then show ?case by (simp split: if_splits)
next
  case (Cons c cs)
  show ?case
  proof (cases "prefix w (c # cs)")
    case True
    with Cons.prems show ?thesis by simp
  next
    case False
    with Cons.prems obtain i' where i': "first_index w cs = Some i'" "i = Suc i'"
      by auto
    from Cons.IH [OF i'(1)] have ih: "i' \<le> length cs" "prefix w (drop i' cs)"
      "\<forall>j<i'. \<not> prefix w (drop j cs)" by auto
    have "\<not> prefix w (drop j (c # cs))" if "j < i" for j
      using that False ih(3) i'(2) by (cases j) auto
    with ih i'(2) show ?thesis by simp
  qed
qed

lemma first_index_forward:
  "first_index w r = Some i \<Longrightarrow> forward_at r w i \<and> (\<forall>j<i. \<not> forward_at r w j)"
  using first_index_Some [of w r i] by (auto simp: prefix_drop_iff [symmetric])

lemma forward_at_sublist: "forward_at r w i \<Longrightarrow> sublist w r"
  unfolding forward_at_def sublist_def
  by (metis append_take_drop_id)

lemma backward_at_rev:
  "backward_at line w j \<longleftrightarrow> j < length line \<and> forward_at (rev line) w (length line - 1 - j)"
proof (cases "j < length line \<and> length w \<le> Suc j")
  case True
  then have "take (length w) (drop (length line - 1 - j) (rev line))
      = rev (take (length w) (drop (Suc j - length w) line))"
    by (simp add: drop_rev take_rev drop_take)
  with True show ?thesis
    unfolding backward_at_def forward_at_def by auto
next
  case False
  then show ?thesis
    unfolding backward_at_def forward_at_def by auto
qed



lemma find_in_group_forward:
  assumes "sublist w line"
  shows "\<exists>i. first_index w line = Some i \<and> find_in_group w line = Some (int i, True)"
proof -
  from assms obtain i where "first_index w line = Some i"
    using first_index_None_iff [of w line] by auto
  then show ?thesis by (simp add: find_in_group_def str_contains_def str_find_def)
qed

lemma find_in_group_backward:
  assumes "\<not> sublist w line" "first_index w (rev line) = Some k"
  shows "find_in_group w line = Some (int (length line) - 1 - int k, False)"
  using assms first_index_None_iff [of w line]
  by (simp add: find_in_group_def str_contains_def str_find_def)

lemma find_in_group_None_iff:
  "find_in_group w line = None \<longleftrightarrow> \<not> sublist w line \<and> \<not> sublist w (rev line)"
  using first_index_None_iff [of w line] first_index_None_iff [of w "rev line"]
  by (auto simp: find_in_group_def str_contains_def Let_def)

lemma first_index_rev_backward:
  assumes "w \<noteq> []" "first_index w (rev line) = Some k"
  shows "k < length line \<and> backward_at line w (length line - 1 - k) \<and>
         (\<forall>j. backward_at line w j \<longrightarrow> j \<le> length line - 1 - k)"
proof -
  from first_index_forward [OF assms(2)]
  have f: "forward_at (rev line) w k" and least: "\<forall>j<k. \<not> forward_at (rev line) w j"
    by auto
  from f assms(1) have k: "k < length line" by (cases w) (auto simp: forward_at_def)
  then have "length line - 1 - (length line - 1 - k) = k" by arith
  with f k have b: "backward_at line w (length line - 1 - k)"
    by (simp add: backward_at_rev)
  have "j \<le> length line - 1 - k" if "backward_at line w j" for j
  proof -
    from that have j: "j < length line" "forward_at (rev line) w (length line - 1 - j)"
      by (auto simp: backward_at_rev)
    with least have "\<not> length line - 1 - j < k" by blast
    with j(1) show ?thesis by arith
  qed
  with k b show ?thesis by blast
qed

lemma find_in_group_Some:
  assumes "find_in_group w line = Some (idx, fwd)"
  shows "(fwd \<and> (\<exists>i. idx = int i \<and> forward_at line w i \<and> first_index w line = Some i)) \<or>
         (\<not> fwd \<and> w \<noteq> [] \<and> \<not> sublist w line \<and>
            (\<exists>j. idx = int j \<and> j < length line \<and> backward_at line w j \<and>
                 first_index w (rev line) = Some (length line - 1 - j)))"
proof (cases "sublist w line")
  case True
  from find_in_group_forward [OF True] assms first_index_forward show ?thesis by auto
next
  case False
  then have ne: "w \<noteq> []" by auto
  from assms False have "sublist w (rev line)"
    using find_in_group_None_iff [of w line] by auto
  then obtain k where k: "first_index w (rev line) = Some k"
    using first_index_None_iff [of w "rev line"] by auto
  from first_index_rev_backward [OF ne k]
  have kk: "k < length line" "backward_at line w (length line - 1 - k)" by auto
  from kk(1) have e: "int (length line) - 1 - int k = int (length line - 1 - k)"
    "length line - 1 - (length line - 1 - k) = k" "length line - 1 - k < length line"
    by arith+
  from find_in_group_backward [OF False k] assms
  have "idx = int (length line) - 1 - int k" "\<not> fwd" by auto
  with e have i: "idx = int (length line - 1 - k)" by simp
  have "first_index w (rev line) = Some (length line - 1 - (length line - 1 - k))"
    using k e(2) by simp
  with i e(3) kk(2) have "\<exists>j. idx = int j \<and> j < length line \<and> backward_at line w j \<and>
      first_index w (rev line) = Some (length line - 1 - j)"
    by blast
  with \<open>\<not> fwd\<close> ne False show ?thesis by blast
qed

section \<open>The scan of a view family\<close>

lemma scan_None_iff:
  "scan resolve word n vs = None \<longleftrightarrow> (\<forall>v \<in> set vs. find_in_group word v = None)"
  by (induction vs arbitrary: n) (auto split: option.splits)

lemma scan_Some:
  "scan resolve word n vs = Some m \<Longrightarrow>
     \<exists>k<length vs. \<exists>res. find_in_group word (vs ! k) = Some res \<and> m = resolve (n + k) res \<and>
        (\<forall>j<k. find_in_group word (vs ! j) = None)"
proof (induction vs arbitrary: n)
  case Nil
  then show ?case by simp
next
  case (Cons v vs)
  show ?case
  proof (cases "find_in_group word v")
    case None
    with Cons.prems have "scan resolve word (Suc n) vs = Some m" by simp
    from Cons.IH [OF this] obtain k res where k: "k < length vs"
      "find_in_group word (vs ! k) = Some res" "m = resolve (Suc n + k) res"
      "\<forall>j<k. find_in_group word (vs ! j) = None" by blast
    have "find_in_group word ((v # vs) ! j) = None" if "j < Suc k" for j
      using that None k(4) by (cases j) auto
    with k show ?thesis
      by (intro exI [of _ "Suc k"] conjI exI [of _ res]) auto
  next
    case (Some res)
    with Cons.prems show ?thesis
      by (intro exI [of _ 0] conjI exI [of _ res]) auto
  qed
qed

lemma find_in_group_empty: "find_in_group [] line = Some (0, True)"
  by (cases line) (simp_all add: find_in_group_def str_contains_def str_find_def)

lemma post_init_example:
  "post_init [''ABC'', ''DEF'', ''GHI''] =
     Inr \<lparr>grid_text = [''ABC'', ''DEF'', ''GHI''],
          columns = [''ADG'', ''BEH'', ''CFI''],
          diag_up_right = [''A'', ''DB'', ''GEC'', ''HF'', ''I''],
          diag_down_right = [''G'', ''DH'', ''AEI'', ''BF'', ''C''],
          highlighted = [[''A'', ''B'', ''C''], [''D'', ''E'', ''F''], [''G'', ''H'', ''I'']]\<rparr>"
  by code_simp

section \<open>The constructor\<close>

lemma py_index_nat: "k < length xs \<Longrightarrow> py_index xs (int k) = Inr k"
  by (simp add: py_index_def)

lemma py_index_ge: "length xs \<le> k \<Longrightarrow> py_index xs (int k) = Inl IndexError"
  by (simp add: py_index_def)

lemma length_bucket_app [simp]: "length (bucket_app bs kvs) = length bs"
  by (simp add: bucket_app_def)

lemma bucket_app_Nil [simp]: "bucket_app bs [] = bs"
  by (simp add: bucket_app_def map_nth)

lemma bucket_app_app: "bucket_app (bucket_app bs xs) ys = bucket_app bs (xs @ ys)"
  by (simp add: bucket_app_def)

lemma append_at_bucket:
  assumes "k < length bs"
  shows "append_at bs (int k) x = Inr (bucket_app bs [(k, x)])"
proof -
  have "bs[k := bs ! k @ [x]] = bucket_app bs [(k, x)]"
    by (rule nth_equalityI) (auto simp: bucket_app_def nth_list_update)
  with assms show ?thesis by (simp add: append_at_def py_index_nat)
qed

lemma append_at_fail: "length bs \<le> k \<Longrightarrow> append_at bs (int k) x = Inl IndexError"
  by (simp add: append_at_def py_index_ge)

lemma append_at_length: "append_at bs i x = Inr bs' \<Longrightarrow> length bs' = length bs"
  by (auto simp: append_at_def split: sum.splits)

lemma append_at_row:
  "r < length h \<Longrightarrow> append_at h (int r) x = Inr (h[r := h ! r @ [x]])"
  by (simp add: append_at_def py_index_nat)

lemma inner_loop_ok:
  assumes "r < row_count" "c + length line \<le> C"
    "length (cols b) = C" "length (diag_up b) = row_count + C - 1"
    "length (diag_dn b) = row_count + C - 1" "r < length (hl b)"
  shows "inner_loop row_count r c line b =
     Inr \<lparr>cols = bucket_app (cols b) (zip (map (\<lambda>c. c) [c..<c + length line]) line),
          diag_up = bucket_app (diag_up b) (zip (map (\<lambda>c. r + c) [c..<c + length line]) line),
          diag_dn = bucket_app (diag_dn b)
                      (zip (map (\<lambda>c. c + row_count - 1 - r) [c..<c + length line]) line),
          hl = (hl b)[r := hl b ! r @ map (\<lambda>ch. [ch]) line]\<rparr>"
  using assms
proof (induction line arbitrary: c b)
  case Nil
  then show ?case by simp
next
  case (Cons letter rest)
  let ?b = "\<lparr>cols = bucket_app (cols b) [(c, letter)],
             diag_up = bucket_app (diag_up b) [(r + c, letter)],
             diag_dn = bucket_app (diag_dn b) [(c + row_count - 1 - r, letter)],
             hl = (hl b)[r := hl b ! r @ [[letter]]]\<rparr>"
  from Cons.prems have c: "c < C" by simp
  have e1: "append_at (cols b) (int c) letter = Inr (cols ?b)"
    using c Cons.prems by (simp add: append_at_bucket)
  have e2: "append_at (diag_up b) (int r + int c) letter = Inr (diag_up ?b)"
    using c Cons.prems append_at_bucket [of "r + c" "diag_up b" letter] by simp
  have k3: "c + row_count - 1 - r < length (diag_dn b)"
    using c Cons.prems by simp
  have i3: "int c - int r + int row_count - 1 = int (c + row_count - 1 - r)"
    using Cons.prems(1) by arith
  have e3: "append_at (diag_dn b) (int c - int r + int row_count - 1) letter
      = Inr (diag_dn ?b)"
    unfolding i3 using append_at_bucket [OF k3] by simp
  have e4: "append_at (hl b) (int r) [letter] = Inr (hl ?b)"
    using Cons.prems by (simp add: append_at_row)
  have step: "inner_loop row_count r c (letter # rest) b = inner_loop row_count r (Suc c) rest ?b"
    using e1 e2 e3 e4 by simp
  have ih: "inner_loop row_count r (Suc c) rest ?b =
     Inr \<lparr>cols = bucket_app (cols ?b) (zip (map (\<lambda>c. c) [Suc c..<Suc c + length rest]) rest),
          diag_up = bucket_app (diag_up ?b)
                      (zip (map (\<lambda>c. r + c) [Suc c..<Suc c + length rest]) rest),
          diag_dn = bucket_app (diag_dn ?b)
                      (zip (map (\<lambda>c. c + row_count - 1 - r) [Suc c..<Suc c + length rest]) rest),
          hl = (hl ?b)[r := hl ?b ! r @ map (\<lambda>ch. [ch]) rest]\<rparr>"
    using Cons.prems by (intro Cons.IH) simp_all
  have u: "[c..<c + length (letter # rest)] = c # [Suc c..<Suc c + length rest]"
    by (subst upt_conv_Cons) simp_all
  show ?case
    unfolding step ih u using Cons.prems(6)
    by (simp add: bucket_app_app)
qed

lemma py_error_eq [simp]: "(e::py_error) = IndexError"
  by (cases e) simp

lemma outer_loop_ok:
  assumes "r + length lines \<le> row_count" "\<forall>line \<in> set lines. length line \<le> C"
    "length (cols b) = C" "length (diag_up b) = row_count + C - 1"
    "length (diag_dn b) = row_count + C - 1" "length (hl b) = r"
  shows "outer_loop row_count r lines b =
     Inr \<lparr>cols = bucket_app (cols b) (keyed (\<lambda>r c. c) r lines),
          diag_up = bucket_app (diag_up b) (keyed (\<lambda>r c. r + c) r lines),
          diag_dn = bucket_app (diag_dn b) (keyed (\<lambda>r c. c + row_count - 1 - r) r lines),
          hl = hl b @ map (map (\<lambda>ch. [ch])) lines\<rparr>"
  using assms
proof (induction lines arbitrary: r b)
  case Nil
  then show ?case by simp
next
  case (Cons line rest)
  let ?b1 = "b\<lparr>hl := hl b @ [[]]\<rparr>"
  let ?b2 = "\<lparr>cols = bucket_app (cols b) (zip (map (\<lambda>c. c) [0..<0 + length line]) line),
          diag_up = bucket_app (diag_up b) (zip (map (\<lambda>c. r + c) [0..<0 + length line]) line),
          diag_dn = bucket_app (diag_dn b)
                      (zip (map (\<lambda>c. c + row_count - 1 - r) [0..<0 + length line]) line),
          hl = hl b @ [map (\<lambda>ch. [ch]) line]\<rparr>"
  have "inner_loop row_count r 0 line ?b1 =
     Inr \<lparr>cols = bucket_app (cols ?b1) (zip (map (\<lambda>c. c) [0..<0 + length line]) line),
          diag_up = bucket_app (diag_up ?b1) (zip (map (\<lambda>c. r + c) [0..<0 + length line]) line),
          diag_dn = bucket_app (diag_dn ?b1)
                      (zip (map (\<lambda>c. c + row_count - 1 - r) [0..<0 + length line]) line),
          hl = (hl ?b1)[r := hl ?b1 ! r @ map (\<lambda>ch. [ch]) line]\<rparr>"
    using Cons.prems by (intro inner_loop_ok [where C = C]) simp_all
  also have "\<dots> = Inr ?b2" unfolding Cons.prems(6) [symmetric] by simp
  finally have step: "outer_loop row_count r (line # rest) b = outer_loop row_count (Suc r) rest ?b2"
    by simp
  have ih: "outer_loop row_count (Suc r) rest ?b2 =
     Inr \<lparr>cols = bucket_app (cols ?b2) (keyed (\<lambda>r c. c) (Suc r) rest),
          diag_up = bucket_app (diag_up ?b2) (keyed (\<lambda>r c. r + c) (Suc r) rest),
          diag_dn = bucket_app (diag_dn ?b2) (keyed (\<lambda>r c. c + row_count - 1 - r) (Suc r) rest),
          hl = hl ?b2 @ map (map (\<lambda>ch. [ch])) rest\<rparr>"
    using Cons.prems by (intro Cons.IH) simp_all
  show ?case unfolding step ih by (simp add: bucket_app_app)
qed

lemma inner_loop_fail:
  assumes "length (cols b) = C" "c \<le> C" "C < c + length line"
  shows "inner_loop row_count r c line b = Inl IndexError"
  using assms
proof (induction line arbitrary: c b)
  case Nil
  then show ?case by simp
next
  case (Cons letter rest)
  show ?case
  proof (cases "c = C")
    case True
    with Cons.prems(1) show ?thesis by (simp add: append_at_fail)
  next
    case False
    with Cons.prems have c: "Suc c \<le> C" "C < Suc c + length rest" by simp_all
    have "inner_loop row_count r (Suc c) rest b' = Inl IndexError"
      if "length (cols b') = C" for b'
      using that c by (intro Cons.IH) simp_all
    then show ?thesis
      using Cons.prems(1) by (auto split: sum.splits dest: append_at_length)
  qed
qed

lemma outer_loop_fail:
  assumes "r + length lines \<le> row_count" "\<exists>line \<in> set lines. C < length line"
    "length (cols b) = C" "length (diag_up b) = row_count + C - 1"
    "length (diag_dn b) = row_count + C - 1" "length (hl b) = r"
  shows "outer_loop row_count r lines b = Inl IndexError"
  using assms
proof (induction lines arbitrary: r b)
  case Nil
  then show ?case by simp
next
  case (Cons line rest)
  show ?case
  proof (cases "C < length line")
    case True
    with Cons.prems(3) have "inner_loop row_count r 0 line (b\<lparr>hl := hl b @ [[]]\<rparr>) = Inl IndexError"
      by (intro inner_loop_fail [where C = C]) simp_all
    then show ?thesis by simp
  next
    case False
    then have le: "\<forall>l \<in> set [line]. length l \<le> C" by simp
    from Cons.prems(1) have r1: "r + length [line] \<le> row_count" by simp
    from outer_loop_ok [OF r1 le Cons.prems(3-6)]
    obtain b2 where b2: "inner_loop row_count r 0 line (b\<lparr>hl := hl b @ [[]]\<rparr>) = Inr b2"
      "length (cols b2) = C" "length (diag_up b2) = row_count + C - 1"
      "length (diag_dn b2) = row_count + C - 1" "length (hl b2) = Suc r"
      using Cons.prems(3-6) by (auto split: sum.splits)
    from False Cons.prems(2) have ex: "\<exists>l \<in> set rest. C < length l" by auto
    have "outer_loop row_count (Suc r) rest b2 = Inl IndexError"
      using Cons.prems(1) ex b2(2-5) by (intro Cons.IH) simp_all
    with b2(1) show ?thesis by simp
  qed
qed

lemma bucket_app_replicate:
  "bucket_app (replicate n []) (keyed key 0 lines) = map (bucket key lines) [0..<n]"
  by (simp add: bucket_app_def bucket_def)

lemma post_init_Nil: "post_init [] = Inl IndexError"
  by (simp add: post_init_def py_get_def py_index_def)

lemma post_init_fail:
  assumes "\<exists>line \<in> set txt. length (hd txt) < length line"
  shows "post_init txt = Inl IndexError"
proof (cases "txt")
  case Nil
  then show ?thesis by (simp add: post_init_Nil)
next
  case (Cons first rest)
  then have g: "py_get txt 0 = Inr first" by (simp add: py_get_def py_index_def)
  have n: "nat (int (length txt) + int (length first) - 1) = length txt + length first - 1"
    using Cons by simp
  have "outer_loop (length txt) 0 txt
      \<lparr>cols = replicate (length first) [],
       diag_up = replicate (length txt + length first - 1) [],
       diag_dn = replicate (length txt + length first - 1) [], hl = []\<rparr> = Inl IndexError"
    using assms Cons by (intro outer_loop_fail [where C = "length first"]) simp_all
  then show ?thesis by (simp add: post_init_def g Let_def n)
qed

lemma post_init_ok:
  assumes "txt \<noteq> []" "\<forall>line \<in> set txt. length line \<le> length (hd txt)"
  shows "post_init txt =
     Inr \<lparr>grid_text = txt,
          columns = map (bucket (\<lambda>r c. c) txt) [0..<length (hd txt)],
          diag_up_right = map (\<lambda>d. rev (bucket (\<lambda>r c. r + c) txt d))
                            [0..<length txt + length (hd txt) - 1],
          diag_down_right = map (bucket (\<lambda>r c. c + length txt - 1 - r) txt)
                            [0..<length txt + length (hd txt) - 1],
          highlighted = map (map (\<lambda>ch. [ch])) txt\<rparr>"
proof -
  from assms(1) obtain first rest where Cons: "txt = first # rest" by (cases "txt") auto
  then have g: "py_get txt 0 = Inr first" by (simp add: py_get_def py_index_def)
  have n: "nat (int (length txt) + int (length first) - 1) = length txt + length first - 1"
    using Cons by simp
  let ?b0 = "\<lparr>cols = replicate (length first) [],
       diag_up = replicate (length txt + length first - 1) [],
       diag_dn = replicate (length txt + length first - 1) [], hl = []\<rparr>"
  have "outer_loop (length txt) 0 txt ?b0 =
     Inr \<lparr>cols = bucket_app (cols ?b0) (keyed (\<lambda>r c. c) 0 txt),
          diag_up = bucket_app (diag_up ?b0) (keyed (\<lambda>r c. r + c) 0 txt),
          diag_dn = bucket_app (diag_dn ?b0) (keyed (\<lambda>r c. c + length txt - 1 - r) 0 txt),
          hl = hl ?b0 @ map (map (\<lambda>ch. [ch])) txt\<rparr>"
    using assms Cons by (intro outer_loop_ok [where C = "length first"]) simp_all
  moreover have "hd txt = first" using Cons by simp
  ultimately show ?thesis
    by (simp add: post_init_def g Let_def n bucket_app_replicate)
qed

lemma zip_map_upt:
  "zip (map f [0..<length line]) line = map (\<lambda>c. (f c, line ! c)) [0..<length line]"
  by (rule nth_equalityI) auto

lemma upt_0_Suc: "[0..<Suc n] = 0 # map Suc [0..<n]"
  by (simp add: upt_conv_Cons map_Suc_upt del: upt_Suc)

lemma keyed_filter:
  assumes "\<forall>line \<in> set lines. length line = C"
  shows "map snd (filter (\<lambda>kv. fst kv = k) (keyed key r0 lines)) =
         concat (map (\<lambda>i. map (\<lambda>c. lines ! i ! c) (filter (\<lambda>c. key (r0 + i) c = k) [0..<C]))
                  [0..<length lines])"
  using assms
proof (induction lines arbitrary: r0)
  case Nil
  then show ?case by simp
next
  case (Cons line rest)
  from Cons.prems have l: "length line = C" and r: "\<forall>line \<in> set rest. length line = C"
    by simp_all
  have h: "map snd (filter (\<lambda>kv. fst kv = k) (zip (map (key r0) [0..<length line]) line))
      = map (\<lambda>c. line ! c) (filter (\<lambda>c. key r0 c = k) [0..<C])"
    unfolding zip_map_upt l [symmetric] by (simp add: filter_map comp_def)
  show ?case
    unfolding upt_0_Suc length_Cons
    using h Cons.IH [OF r, of "Suc r0"] by (simp add: comp_def)
qed

lemma bucket_rows:
  assumes "\<forall>line \<in> set lines. length line = C"
  shows "bucket key lines k =
         concat (map (\<lambda>r. map (\<lambda>c. lines ! r ! c) (filter (\<lambda>c. key r c = k) [0..<C]))
                  [0..<length lines])"
  unfolding bucket_def using keyed_filter [OF assms, of k key 0] by simp

lemma filter_upt_eq: "filter (\<lambda>c. c = c0) [0..<C] = (if c0 < C then [c0] else [])"
  by (induction C) auto

lemma filter_upt_single:
  assumes "\<And>c. c < C \<Longrightarrow> P c \<longleftrightarrow> c = c0"
  shows "filter P [0..<C] = (if c0 < C then [c0] else [])"
proof -
  have "filter P [0..<C] = filter (\<lambda>c. c = c0) [0..<C]"
    by (rule filter_cong) (auto simp: assms)
  then show ?thesis by (simp only: filter_upt_eq)
qed

lemma concat_map_if:
  "concat (map (\<lambda>r. if P r then [f r] else []) xs) = map f (filter P xs)"
  by (induction xs) auto

lemma filter_interval: "filter (\<lambda>r. lo \<le> r \<and> r < hi) [0..<n] = [lo..<min hi n]"
proof (induction n)
  case 0
  then show ?case by simp
next
  case (Suc n)
  consider "lo \<le> n" "n < hi" | "hi \<le> n" | "n < lo" by linarith
  then show ?case
  proof cases
    case 1
    then have "min hi (Suc n) = Suc n" "min hi n = n" by simp_all
    with Suc 1 show ?thesis by simp
  next
    case 2
    then have "min hi (Suc n) = hi" "min hi n = hi" by simp_all
    with Suc 2 show ?thesis by simp
  next
    case 3
    then have "min hi (Suc n) \<le> lo" "min hi n \<le> lo" by simp_all
    with Suc 3 show ?thesis by simp
  qed
qed

lemma bucket_single:
  assumes len: "\<forall>line \<in> set lines. length line = C"
    and key: "\<And>r c. r < length lines \<Longrightarrow> c < C \<Longrightarrow>
                key r c = k \<longleftrightarrow> lo \<le> r \<and> r < hi \<and> c = g r"
    and dom: "\<And>r. r < length lines \<Longrightarrow> lo \<le> r \<Longrightarrow> r < hi \<Longrightarrow> g r < C"
  shows "bucket key lines k = map (\<lambda>r. lines ! r ! g r) [lo..<min hi (length lines)]"
proof -
  have "map (\<lambda>r. map (\<lambda>c. lines ! r ! c) (filter (\<lambda>c. key r c = k) [0..<C])) [0..<length lines]
      = map (\<lambda>r. if lo \<le> r \<and> r < hi then [lines ! r ! g r] else []) [0..<length lines]"
  proof (rule map_cong [OF refl])
    fix r assume "r \<in> set [0..<length lines]"
    then have r: "r < length lines" by simp
    show "map (\<lambda>c. lines ! r ! c) (filter (\<lambda>c. key r c = k) [0..<C])
        = (if lo \<le> r \<and> r < hi then [lines ! r ! g r] else [])"
    proof (cases "lo \<le> r \<and> r < hi")
      case True
      then have "filter (\<lambda>c. key r c = k) [0..<C] = (if g r < C then [g r] else [])"
        by (intro filter_upt_single) (simp add: key [OF r])
      with True dom [OF r] show ?thesis by simp
    next
      case False
      then have "filter (\<lambda>c. key r c = k) [0..<C] = []"
        by (auto simp: filter_empty_conv key [OF r])
      with False show ?thesis by simp
    qed
  qed
  then show ?thesis
    unfolding bucket_rows [OF len] by (simp only: concat_map_if filter_interval)
qed

lemma bucket_cols:
  assumes "\<forall>line \<in> set lines. length line = C" "k < C"
  shows "bucket (\<lambda>r c. c) lines k = map (\<lambda>r. lines ! r ! k) [0..<length lines]"
  using bucket_single [OF assms(1), of "\<lambda>r c. c" k 0 "length lines" "\<lambda>r. k"] assms(2)
  by auto

lemma bucket_up:
  assumes "\<forall>line \<in> set lines. length line = C"
  shows "bucket (\<lambda>r c. r + c) lines k =
         map (\<lambda>r. lines ! r ! (k - r)) [k + 1 - C..<min (k + 1) (length lines)]"
proof (rule bucket_single [OF assms])
  fix r c assume "r < length lines" "c < C"
  then show "r + c = k \<longleftrightarrow> k + 1 - C \<le> r \<and> r < k + 1 \<and> c = k - r" by arith
next
  fix r assume "r < length lines" "k + 1 - C \<le> r" "r < k + 1"
  then show "k - r < C" by arith
qed

lemma bucket_dn:
  assumes "\<forall>line \<in> set lines. length line = C"
  shows "bucket (\<lambda>r c. c + length lines - 1 - r) lines k =
         map (\<lambda>r. lines ! r ! (k + r + 1 - length lines))
           [length lines - 1 - k..<min (length lines + C - 1 - k) (length lines)]"
proof (rule bucket_single [OF assms])
  fix r c assume "r < length lines" "c < C"
  then show "c + length lines - 1 - r = k \<longleftrightarrow>
      length lines - 1 - k \<le> r \<and> r < length lines + C - 1 - k \<and> c = k + r + 1 - length lines"
    by arith
next
  fix r assume "r < length lines" "length lines - 1 - k \<le> r" "r < length lines + C - 1 - k"
  then show "k + r + 1 - length lines < C" by arith
qed

lemma post_init_wf:
  assumes "wf_rows rows"
  shows "post_init rows =
     Inr \<lparr>grid_text = rows,
          columns = map (\<lambda>c. map (\<lambda>r. rows ! r ! c) [0..<length rows]) [0..<length (hd rows)],
          diag_up_right =
            map (\<lambda>d. rev (map (\<lambda>r. rows ! r ! (d - r))
                             [d + 1 - length (hd rows)..<min (d + 1) (length rows)]))
              [0..<length rows + length (hd rows) - 1],
          diag_down_right =
            map (\<lambda>d. map (\<lambda>r. rows ! r ! (d + r + 1 - length rows))
                        [length rows - 1 - d..<min (length rows + length (hd rows) - 1 - d) (length rows)])
              [0..<length rows + length (hd rows) - 1],
          highlighted = map (map (\<lambda>ch. [ch])) rows\<rparr>"
proof -
  from assms have ne: "rows \<noteq> []" and len: "\<forall>line \<in> set rows. length line = length (hd rows)"
    unfolding wf_rows_def by blast+
  from len have le: "\<forall>line \<in> set rows. length line \<le> length (hd rows)"
    by (metis order_refl)
  have c: "map (bucket (\<lambda>r c. c) rows) [0..<length (hd rows)]
      = map (\<lambda>c. map (\<lambda>r. rows ! r ! c) [0..<length rows]) [0..<length (hd rows)]"
  proof (rule map_cong [OF refl])
    fix c assume "c \<in> set [0..<length (hd rows)]"
    then have "c < length (hd rows)" by simp
    then show "bucket (\<lambda>r c. c) rows c = map (\<lambda>r. rows ! r ! c) [0..<length rows]"
      by (rule bucket_cols [OF len])
  qed
  show ?thesis
    unfolding post_init_ok [OF ne le] c bucket_up [OF len] bucket_dn [OF len] ..
qed

lemma column_cell:
  assumes "c < C" "i < R"
  shows "map (\<lambda>c. map (\<lambda>r. rows ! r ! c) [0..<R]) [0..<C] ! c ! i = (rows::string list) ! i ! c"
  using assms by simp

lemma up_right_cell:
  fixes rows :: "string list"
  defines "V \<equiv> \<lambda>R C. map (\<lambda>d. rev (map (\<lambda>r. rows ! r ! (d - r)) [d + 1 - C..<min (d + 1) R]))
                      [0..<R + C - 1]"
  assumes d: "d < length (V R C)" and i: "i < length (V R C ! d)"
  shows "\<exists>r c. up_right_loc R d (int i) = Location (int r) (int c) \<and> r < R \<and> c < C \<and>
           r + c = d \<and> V R C ! d ! i = rows ! r ! c"
proof -
  define lo where "lo = d + 1 - C"
  define hi where "hi = min (d + 1) R"
  from d have d': "d < R + C - 1" by (simp add: V_def)
  then have Vd: "V R C ! d = rev (map (\<lambda>r. rows ! r ! (d - r)) [lo..<hi])"
    by (simp add: V_def lo_def hi_def del: upt_Suc)
  with i have i': "i < hi - lo" by simp
  have hi: "hi \<le> d + 1" "hi \<le> R" by (simp_all add: hi_def)
  define r where "r = hi - 1 - i"
  from i' have r: "lo \<le> r" "r < hi" by (simp_all add: r_def)
  with hi have rb: "r \<le> d" "r < R" by simp_all
  have k: "lo + (hi - lo - Suc i) < hi" "lo + (hi - lo - Suc i) = r"
    using i' by (simp_all add: r_def)
  have "V R C ! d ! i = map (\<lambda>r. rows ! r ! (d - r)) [lo..<hi] ! (hi - lo - Suc i)"
    unfolding Vd using i' by (simp add: rev_nth del: upt_Suc)
  also have "\<dots> = rows ! r ! (d - r)"
    using i' k by (simp del: upt_Suc)
  finally have v: "V R C ! d ! i = rows ! r ! (d - r)" .
  have c: "d - r < C" using r(1) rb(1) d' unfolding lo_def by arith
  have "up_right_loc R d (int i) = Location (int r) (int (d - r))"
  proof (cases "d < R")
    case True
    then have "hi = d + 1" by (simp add: hi_def)
    with i' have "r = d - i" "i \<le> d" by (simp_all add: r_def)
    with True show ?thesis by (simp add: up_right_loc_def of_nat_diff)
  next
    case False
    then have "hi = R" by (simp add: hi_def)
    with i' have ri: "r = R - 1 - i" "i < R" by (simp_all add: r_def)
    have "int R - int i - 1 = int (R - 1 - i)" using ri(2) by arith
    moreover have "int d - int R + int i + 1 = int (d - (R - 1 - i))"
      using ri(2) False by arith
    ultimately show ?thesis using False ri(1) by (simp add: up_right_loc_def)
  qed
  moreover have "r + (d - r) = d" using rb(1) by simp
  ultimately show ?thesis using v c rb(2) by blast
qed

lemma down_right_cell:
  fixes rows :: "string list"
  defines "V \<equiv> \<lambda>R C. map (\<lambda>d. map (\<lambda>r. rows ! r ! (d + r + 1 - R))
                                [R - 1 - d..<min (R + C - 1 - d) R])
                      [0..<R + C - 1]"
  assumes d: "d < length (V R C)" and i: "i < length (V R C ! d)"
  shows "\<exists>r c. down_right_loc R d (int i) = Location (int r) (int c) \<and> r < R \<and> c < C \<and>
           c + (R - 1) = d + r \<and> V R C ! d ! i = rows ! r ! c"
proof -
  define lo where "lo = R - 1 - d"
  define hi where "hi = min (R + C - 1 - d) R"
  from d have d': "d < R + C - 1" by (simp add: V_def)
  then have Vd: "V R C ! d = map (\<lambda>r. rows ! r ! (d + r + 1 - R)) [lo..<hi]"
    by (simp add: V_def lo_def hi_def del: upt_Suc)
  with i have i': "i < hi - lo" by simp
  have hi: "hi \<le> R + C - 1 - d" "hi \<le> R" by (simp_all add: hi_def)
  define r where "r = lo + i"
  from i' have r: "lo \<le> r" "r < hi" by (simp_all add: r_def)
  with hi have rb: "r < R + C - 1 - d" "r < R" by simp_all
  have v: "V R C ! d ! i = rows ! r ! (d + r + 1 - R)"
    unfolding Vd using i' r by (simp add: r_def del: upt_Suc)
  have c: "d + r + 1 - R < C" using rb r(1) unfolding lo_def by arith
  have "down_right_loc R d (int i) = Location (int r) (int (d + r + 1 - R))"
  proof (cases "d < R")
    case True
    then have ri: "r = R - 1 - d + i" by (simp add: r_def lo_def)
    have "int R - int d + int i - 1 = int (R - 1 - d + i)" using True by arith
    moreover have "d + (R - 1 - d + i) + 1 - R = i" using True by arith
    ultimately show ?thesis using True ri by (simp add: down_right_loc_def)
  next
    case False
    then have ri: "r = i" by (simp add: r_def lo_def)
    have "int d - int R + int i + 1 = int (d + i + 1 - R)" using False by arith
    then show ?thesis using False ri by (simp add: down_right_loc_def)
  qed
  moreover have "d + r + 1 - R + (R - 1) = d + r" using rb(2) r(1) unfolding lo_def by arith
  ultimately show ?thesis using v c rb(2) by blast
qed

lemma wf_rows_nth: "wf_rows rows \<Longrightarrow> r < length rows \<Longrightarrow> length (rows ! r) = length (hd rows)"
  unfolding wf_rows_def by (metis nth_mem)

lemma py_get_nat: "k < length xs \<Longrightarrow> py_get xs (int k) = Inr (xs ! k)"
  by (simp add: py_get_def py_index_nat)

lemma grid_at_nat:
  assumes "wf_rows rows" "r < length rows" "c < length (hd rows)"
  shows "grid_at rows (Location (int r) (int c)) = Inr (rows ! r ! c)"
    and "in_bounds rows (Location (int r) (int c))"
  using assms wf_rows_nth [OF assms(1,2)]
  by (simp_all add: grid_at_def in_bounds_def py_get_nat)

lemma rearrangesI:
  assumes wf: "wf_rows rows"
    and pos: "\<And>n i. n < length V \<Longrightarrow> i < length (V ! n) \<Longrightarrow>
        \<exists>r c. loc n (int i) = Location (int r) (int c) \<and> r < length rows \<and> c < length (hd rows)
             \<and> line r c = n \<and> off r c = i \<and> V ! n ! i = rows ! r ! c"
    and cell: "\<And>r c. r < length rows \<Longrightarrow> c < length (hd rows) \<Longrightarrow>
        line r c < length V \<and> off r c < length (V ! line r c) \<and>
        loc (line r c) (int (off r c)) = Location (int r) (int c)"
  shows "rearranges rows V loc"
  unfolding rearranges_def
proof (intro conjI allI impI)
  fix n i assume "n < length V" "i < length (V ! n)"
  from pos [OF this] obtain r c where rc: "loc n (int i) = Location (int r) (int c)"
    "r < length rows" "c < length (hd rows)" "V ! n ! i = rows ! r ! c" by blast
  from grid_at_nat [OF wf rc(2,3)] rc(1,4)
  show "in_bounds rows (loc n (int i))" "grid_at rows (loc n (int i)) = Inr (V ! n ! i)"
    by simp_all
next
  fix r c assume r: "r < length rows" and c: "c < length (hd rows)"
  show "\<exists>!p. fst p < length V \<and> snd p < length (V ! fst p) \<and>
             loc (fst p) (int (snd p)) = Location (int r) (int c)"
  proof (rule ex1I [of _ "(line r c, off r c)"])
    show "fst (line r c, off r c) < length V \<and>
        snd (line r c, off r c) < length (V ! fst (line r c, off r c)) \<and>
        loc (fst (line r c, off r c)) (int (snd (line r c, off r c))) = Location (int r) (int c)"
      using cell [OF r c] by simp
  next
    fix p assume p: "fst p < length V \<and> snd p < length (V ! fst p) \<and>
             loc (fst p) (int (snd p)) = Location (int r) (int c)"
    then obtain r' c' where rc: "loc (fst p) (int (snd p)) = Location (int r') (int c')"
      "line r' c' = fst p" "off r' c' = snd p"
      using pos [of "fst p" "snd p"] by blast
    with p have "r' = r" "c' = c" by simp_all
    with rc(2,3) show "p = (line r c, off r c)" by (simp add: prod_eq_iff)
  qed
qed

lemma views_wf:
  assumes "wf_rows rows" "post_init rows = Inr g"
  shows "grid_text g = rows"
    and "columns g = map (\<lambda>c. map (\<lambda>r. rows ! r ! c) [0..<length rows]) [0..<length (hd rows)]"
    and "diag_up_right g =
            map (\<lambda>d. rev (map (\<lambda>r. rows ! r ! (d - r))
                             [d + 1 - length (hd rows)..<min (d + 1) (length rows)]))
              [0..<length rows + length (hd rows) - 1]"
    and "diag_down_right g =
            map (\<lambda>d. map (\<lambda>r. rows ! r ! (d + r + 1 - length rows))
                        [length rows - 1 - d..<min (length rows + length (hd rows) - 1 - d) (length rows)])
              [0..<length rows + length (hd rows) - 1]"
    and "highlighted g = map (map (\<lambda>ch. [ch])) rows"
  using assms(2) unfolding post_init_wf [OF assms(1)] by auto

lemma rearranges_rows:
  assumes wf: "wf_rows rows"
  shows "rearranges rows rows (\<lambda>n i. Location (int n) i)"
proof (rule rearrangesI [OF wf, where line = "\<lambda>r c. r" and off = "\<lambda>r c. c"])
  fix n i assume "n < length rows" "i < length (rows ! n)"
  then show "\<exists>r c. Location (int n) (int i) = Location (int r) (int c) \<and> r < length rows \<and>
      c < length (hd rows) \<and> r = n \<and> c = i \<and> rows ! n ! i = rows ! r ! c"
    using wf_rows_nth [OF wf, of n] by simp
next
  fix r c assume "r < length rows" "c < length (hd rows)"
  then show "r < length rows \<and> c < length (rows ! r) \<and> Location (int r) (int c) = Location (int r) (int c)"
    using wf_rows_nth [OF wf, of r] by simp
qed

lemma rearranges_columns:
  assumes wf: "wf_rows rows" and g: "post_init rows = Inr g"
  shows "rearranges rows (columns g) (\<lambda>n i. Location i (int n))"
proof (rule rearrangesI [OF wf, where line = "\<lambda>r c. c" and off = "\<lambda>r c. r"])
  fix n i assume "n < length (columns g)" "i < length (columns g ! n)"
  then show "\<exists>r c. Location (int i) (int n) = Location (int r) (int c) \<and> r < length rows \<and>
      c < length (hd rows) \<and> c = n \<and> r = i \<and> columns g ! n ! i = rows ! r ! c"
    unfolding views_wf(2) [OF wf g] by simp
next
  fix r c assume "r < length rows" "c < length (hd rows)"
  then show "c < length (columns g) \<and> r < length (columns g ! c) \<and>
      Location (int r) (int c) = Location (int r) (int c)"
    unfolding views_wf(2) [OF wf g] by simp
qed

lemma length_up_right:
  assumes wf: "wf_rows rows" and g: "post_init rows = Inr g"
  shows "length (diag_up_right g) = length rows + length (hd rows) - 1"
    and "d < length rows + length (hd rows) - 1 \<Longrightarrow>
         length (diag_up_right g ! d) = min (d + 1) (length rows) - (d + 1 - length (hd rows))"
  unfolding views_wf(3) [OF wf g] by (simp_all del: upt_Suc)

lemma length_down_right:
  assumes wf: "wf_rows rows" and g: "post_init rows = Inr g"
  shows "length (diag_down_right g) = length rows + length (hd rows) - 1"
    and "d < length rows + length (hd rows) - 1 \<Longrightarrow>
         length (diag_down_right g ! d) =
           min (length rows + length (hd rows) - 1 - d) (length rows) - (length rows - 1 - d)"
  unfolding views_wf(4) [OF wf g] by (simp_all del: upt_Suc)

lemma rearranges_up_right:
  assumes wf: "wf_rows rows" and g: "post_init rows = Inr g"
  shows "rearranges rows (diag_up_right g) (up_right_loc (length rows))"
proof (rule rearrangesI [OF wf, where line = "\<lambda>r c. r + c"
      and off = "\<lambda>r c. if r + c < length rows then c else length rows - 1 - r"])
  fix n i assume n: "n < length (diag_up_right g)" and i: "i < length (diag_up_right g ! n)"
  from up_right_cell [OF n [unfolded views_wf(3) [OF wf g]] i [unfolded views_wf(3) [OF wf g]]]
  obtain r c where rc: "up_right_loc (length rows) n (int i) = Location (int r) (int c)"
    "r < length rows" "c < length (hd rows)" "r + c = n"
    "diag_up_right g ! n ! i = rows ! r ! c"
    unfolding views_wf(3) [OF wf g] by blast
  have "(if r + c < length rows then c else length rows - 1 - r) = i"
    using rc(1,2,4) by (auto simp: up_right_loc_def split: if_splits)
  with rc show "\<exists>r c. up_right_loc (length rows) n (int i) = Location (int r) (int c) \<and>
      r < length rows \<and> c < length (hd rows) \<and> r + c = n \<and>
      (if r + c < length rows then c else length rows - 1 - r) = i \<and>
      diag_up_right g ! n ! i = rows ! r ! c"
    by blast
next
  fix r c assume r: "r < length rows" and c: "c < length (hd rows)"
  let ?i = "if r + c < length rows then c else length rows - 1 - r"
  from r c have n: "r + c < length rows + length (hd rows) - 1" by arith
  have "?i < min (r + c + 1) (length rows) - (r + c + 1 - length (hd rows))"
    using r c by (auto simp: min_def)
  then have i: "?i < length (diag_up_right g ! (r + c))"
    using length_up_right(2) [OF wf g n] by simp
  have "up_right_loc (length rows) (r + c) (int ?i) = Location (int r) (int c)"
    using r c by (auto simp: up_right_loc_def)
  with n i show "r + c < length (diag_up_right g) \<and> ?i < length (diag_up_right g ! (r + c)) \<and>
      up_right_loc (length rows) (r + c) (int ?i) = Location (int r) (int c)"
    using length_up_right(1) [OF wf g] by simp
qed

lemma rearranges_down_right:
  assumes wf: "wf_rows rows" and g: "post_init rows = Inr g"
  shows "rearranges rows (diag_down_right g) (down_right_loc (length rows))"
proof (rule rearrangesI [OF wf, where line = "\<lambda>r c. c + (length rows - 1) - r"
      and off = "\<lambda>r c. if c + (length rows - 1) - r < length rows then c else r"])
  fix n i assume n: "n < length (diag_down_right g)" and i: "i < length (diag_down_right g ! n)"
  from down_right_cell [OF n [unfolded views_wf(4) [OF wf g]] i [unfolded views_wf(4) [OF wf g]]]
  obtain r c where rc: "down_right_loc (length rows) n (int i) = Location (int r) (int c)"
    "r < length rows" "c < length (hd rows)" "c + (length rows - 1) = n + r"
    "diag_down_right g ! n ! i = rows ! r ! c"
    unfolding views_wf(4) [OF wf g] by blast
  from rc(4) have l: "c + (length rows - 1) - r = n" by simp
  have "(if n < length rows then c else r) = i"
    using rc(1) by (auto simp: down_right_loc_def split: if_splits)
  with rc l show "\<exists>r c. down_right_loc (length rows) n (int i) = Location (int r) (int c) \<and>
      r < length rows \<and> c < length (hd rows) \<and> c + (length rows - 1) - r = n \<and>
      (if c + (length rows - 1) - r < length rows then c else r) = i \<and>
      diag_down_right g ! n ! i = rows ! r ! c"
    by blast
next
  fix r c assume r: "r < length rows" and c: "c < length (hd rows)"
  let ?n = "c + (length rows - 1) - r"
  let ?i = "if ?n < length rows then c else r"
  from r c have n: "?n < length rows + length (hd rows) - 1" by arith
  have "?i < min (length rows + length (hd rows) - 1 - ?n) (length rows) - (length rows - 1 - ?n)"
    using r c by (auto simp: min_def)
  then have i: "?i < length (diag_down_right g ! ?n)"
    using length_down_right(2) [OF wf g n] by simp
  have "down_right_loc (length rows) ?n (int ?i) = Location (int r) (int c)"
    using r c by (auto simp: down_right_loc_def)
  with n i show "?n < length (diag_down_right g) \<and> ?i < length (diag_down_right g ! ?n) \<and>
      down_right_loc (length rows) ?n (int ?i) = Location (int r) (int c)"
    using length_down_right(1) [OF wf g] by simp
qed

lemma card_up_line:
  "card {(r, c). r < R \<and> c < C \<and> r + c = d} = min (d + 1) R - (d + 1 - C)"
proof -
  have "{(r, c). r < R \<and> c < C \<and> r + c = d} = (\<lambda>r. (r, d - r)) ` {d + 1 - C..<min (d + 1) R}"
    by (auto simp: image_iff)
  moreover have "inj_on (\<lambda>r. (r, d - r)) {d + 1 - C..<min (d + 1) R}"
    by (simp add: inj_on_def)
  ultimately show ?thesis by (simp add: card_image)
qed

lemma card_down_line:
  assumes "0 < R"
  shows "card {(r, c). r < R \<and> c < C \<and> int c - int r = int d - (int R - 1)}
       = min (R + C - 1 - d) R - (R - 1 - d)"
proof -
  have "{(r, c). r < R \<and> c < C \<and> int c - int r = int d - (int R - 1)}
      = (\<lambda>r. (r, d + r + 1 - R)) ` {R - 1 - d..<min (R + C - 1 - d) R}"
    using assms by (auto simp: image_iff)
  moreover have "inj_on (\<lambda>r. (r, d + r + 1 - R)) {R - 1 - d..<min (R + C - 1 - d) R}"
    by (simp add: inj_on_def)
  ultimately show ?thesis by (simp add: card_image)
qed

section \<open>Highlighting and the search in a grid\<close>

lemma grid_ok_post_init:
  assumes "wf_rows rows" "post_init rows = Inr g"
  shows "grid_ok g"
proof -
  note v = views_wf [OF assms]
  have "map length (map (map (\<lambda>ch. [ch])) rows) = map length rows" by simp
  with assms show ?thesis unfolding grid_ok_def v(1) v(5) by simp
qed

lemma grid_ok_views:
  assumes "grid_ok g"
  shows "wf_rows (grid_text g)"
    and "\<exists>g0. post_init (grid_text g) = Inr g0 \<and> columns g0 = columns g \<and>
           diag_up_right g0 = diag_up_right g \<and> diag_down_right g0 = diag_down_right g"
    and "length (highlighted g) = length (grid_text g)"
    and "r < length (grid_text g) \<Longrightarrow> length (highlighted g ! r) = length (hd (grid_text g))"
proof -
  from assms show wf: "wf_rows (grid_text g)" by (simp add: grid_ok_def)
  from assms show "\<exists>g0. post_init (grid_text g) = Inr g0 \<and> columns g0 = columns g \<and>
           diag_up_right g0 = diag_up_right g \<and> diag_down_right g0 = diag_down_right g"
    by (auto simp: grid_ok_def split: sum.splits)
  from assms have s: "map length (highlighted g) = map length (grid_text g)"
    by (simp add: grid_ok_def)
  then show l: "length (highlighted g) = length (grid_text g)" by (rule map_eq_imp_length_eq)
  assume r: "r < length (grid_text g)"
  with l s have "length (highlighted g ! r) = length (grid_text g ! r)"
    by (metis nth_map)
  with wf_rows_nth [OF wf r] show "length (highlighted g ! r) = length (hd (grid_text g))"
    by simp
qed

lemma py_set_nat: "k < length xs \<Longrightarrow> py_set xs (int k) v = Inr (xs[k := v])"
  by (simp add: py_set_def py_index_nat)

lemma in_bounds_nat:
  assumes "in_bounds rows loc"
  obtains r c where "loc = Location (int r) (int c)" "r < length rows" "c < length (hd rows)"
proof -
  from assms have "loc = Location (int (nat (row loc))) (int (nat (column loc)))"
    "nat (row loc) < length rows" "nat (column loc) < length (hd rows)"
    by (simp_all add: in_bounds_def nat_less_iff)
  then show ?thesis by (rule that)
qed

lemma highlight_cell_ok:
  assumes ok: "grid_ok g"
    and loc: "Location (row start + int ind * fst off) (column start + int ind * snd off)
              = Location (int r) (int c)"
    and r: "r < length (grid_text g)" and c: "c < length (hd (grid_text g))"
  shows "highlight_cell g start off color ind =
         Inr (g\<lparr>highlighted :=
                (highlighted g)[r := (highlighted g ! r)[c := color @ [grid_text g ! r ! c] @ Fore_RESET]]\<rparr>)"
proof -
  note v = grid_ok_views [OF ok]
  from loc have e: "row start + int ind * fst off = int r" "column start + int ind * snd off = int c"
    by simp_all
  have 1: "py_get (grid_text g) (int r) = Inr (grid_text g ! r)" using r by (rule py_get_nat)
  have 2: "py_get (grid_text g ! r) (int c) = Inr (grid_text g ! r ! c)"
    using c wf_rows_nth [OF v(1) r] by (simp add: py_get_nat)
  have 3: "py_index (highlighted g) (int r) = Inr r" using r v(3) by (simp add: py_index_nat)
  have 4: "py_set (highlighted g ! r) (int c) x = Inr ((highlighted g ! r)[c := x])" for x
    using c v(4) [OF r] by (simp add: py_set_nat)
  show ?thesis by (simp add: highlight_cell_def Let_def e 1 2 3 4)
qed

lemma grid_ok_paint:
  assumes "grid_ok g"
  shows "grid_ok (g\<lparr>highlighted := (highlighted g)[r := (highlighted g ! r)[c := x]]\<rparr>)"
proof -
  have "map length ((highlighted g)[r := (highlighted g ! r)[c := x]]) = map length (highlighted g)"
  proof (rule nth_equalityI)
    show "length (map length ((highlighted g)[r := (highlighted g ! r)[c := x]]))
        = length (map length (highlighted g))" by simp
  next
    fix i assume "i < length (map length ((highlighted g)[r := (highlighted g ! r)[c := x]]))"
    then have "i < length (highlighted g)" by simp
    then show "map length ((highlighted g)[r := (highlighted g ! r)[c := x]]) ! i
        = map length (highlighted g) ! i"
      by (cases "i = r") simp_all
  qed
  with assms show ?thesis by (auto simp: grid_ok_def split: sum.splits)
qed

lemma nth_paint:
  assumes "r' < length h" "c' < length (h ! r')"
  shows "h[r := (h ! r)[c := x]] ! r' ! c' = (if r' = r \<and> c' = c then x else h ! r' ! c')"
  using assms by (cases "r' = r") (simp_all add: nth_list_update)

lemma highlight_loop_ok:
  fixes start :: location and off :: "int \<times> int"
  defines "pos \<equiv> \<lambda>t. Location (row start + int t * fst off) (column start + int t * snd off)"
  assumes ok: "grid_ok g" and inb: "\<forall>t \<in> set inds. in_bounds (grid_text g) (pos t)"
  shows "\<exists>g'. highlight_loop g start off color inds = Inr g' \<and> grid_ok g' \<and>
           grid_text g' = grid_text g \<and> columns g' = columns g \<and>
           diag_up_right g' = diag_up_right g \<and> diag_down_right g' = diag_down_right g \<and>
           (\<forall>r<length (grid_text g). \<forall>c<length (hd (grid_text g)).
              highlighted g' ! r ! c =
                (if \<exists>t \<in> set inds. pos t = Location (int r) (int c)
                 then color @ [grid_text g ! r ! c] @ Fore_RESET
                 else highlighted g ! r ! c))"
  using ok inb
proof (induction inds arbitrary: g)
  case Nil
  then show ?case by simp
next
  case (Cons ind inds)
  from Cons.prems(2) have "in_bounds (grid_text g) (pos ind)" by simp
  then obtain r0 c0 where p: "pos ind = Location (int r0) (int c0)"
    "r0 < length (grid_text g)" "c0 < length (hd (grid_text g))"
    by (rule in_bounds_nat)
  let ?m = "color @ [grid_text g ! r0 ! c0] @ Fore_RESET"
  let ?g1 = "g\<lparr>highlighted := (highlighted g)[r0 := (highlighted g ! r0)[c0 := ?m]]\<rparr>"
  have c: "highlight_cell g start off color ind = Inr ?g1"
    using highlight_cell_ok [OF Cons.prems(1) p(1) [unfolded pos_def] p(2,3)] .
  have ok1: "grid_ok ?g1" using Cons.prems(1) by (rule grid_ok_paint)
  have t1: "grid_text ?g1 = grid_text g" by simp
  from Cons.prems(2) have inb1: "\<forall>t \<in> set inds. in_bounds (grid_text ?g1) (pos t)" by simp
  from Cons.IH [OF ok1 inb1] obtain g' where g':
    "highlight_loop ?g1 start off color inds = Inr g'" "grid_ok g'"
    "grid_text g' = grid_text g" "columns g' = columns g"
    "diag_up_right g' = diag_up_right g" "diag_down_right g' = diag_down_right g"
    and cells: "\<forall>r<length (grid_text g). \<forall>c<length (hd (grid_text g)).
              highlighted g' ! r ! c =
                (if \<exists>t \<in> set inds. pos t = Location (int r) (int c)
                 then color @ [grid_text g ! r ! c] @ Fore_RESET
                 else highlighted ?g1 ! r ! c)"
    unfolding t1 by auto
  have "highlighted g' ! r ! c =
                (if \<exists>t \<in> set (ind # inds). pos t = Location (int r) (int c)
                 then color @ [grid_text g ! r ! c] @ Fore_RESET
                 else highlighted g ! r ! c)"
    if r: "r < length (grid_text g)" and cc: "c < length (hd (grid_text g))" for r c
  proof -
    note v = grid_ok_views [OF Cons.prems(1)]
    have "highlighted ?g1 ! r ! c = (if r = r0 \<and> c = c0 then ?m else highlighted g ! r ! c)"
      using r cc v(3) v(4) [OF r] by (simp add: nth_paint)
    moreover have "pos ind = Location (int r) (int c) \<longleftrightarrow> r = r0 \<and> c = c0"
      unfolding p(1) by auto
    ultimately show ?thesis using cells r cc by auto
  qed
  with g' c show ?case by simp
qed

lemma scan_cells_in_bounds:
  assumes hit: "scan resolve word 0 V = Some (start, dir)"
    and res: "\<And>n idx fwd. resolve n (idx, fwd) = (loc n idx, if fwd then dF else dB)"
    and pos: "\<And>n i. n < length V \<Longrightarrow> i < length (V ! n) \<Longrightarrow> in_bounds rows (loc n (int i))"
    and lin: "\<And>n i t. loc n (i + t) =
                Location (row (loc n i) + t * fst (offsets dF))
                         (column (loc n i) + t * snd (offsets dF))"
    and opp: "offsets dB = (- fst (offsets dF), - snd (offsets dF))"
  shows "\<forall>t<length word. in_bounds rows (step_from start dir t)"
proof (intro allI impI)
  fix t assume t: "t < length word"
  from scan_Some [OF hit] obtain k idx fwd where k: "k < length V"
    "find_in_group word (V ! k) = Some (idx, fwd)" "(start, dir) = resolve k (idx, fwd)"
    by auto
  from k(3) res have sd: "start = loc k idx" "dir = (if fwd then dF else dB)" by simp_all
  from find_in_group_Some [OF k(2)] show "in_bounds rows (step_from start dir t)"
  proof (elim disjE conjE exE)
    fix i assume f: "fwd" "idx = int i" "forward_at (V ! k) word i"
    from f(3) t have "i + t < length (V ! k)" by (simp add: forward_at_def)
    from pos [OF k(1) this] have "in_bounds rows (loc k (int i + int t))" by simp
    then show ?thesis
      unfolding lin using f(1,2) sd by (simp add: step_from_def)
  next
    fix j assume b: "\<not> fwd" "idx = int j" "j < length (V ! k)" "backward_at (V ! k) word j"
    from b(4) t have tj: "t \<le> j" by (simp add: backward_at_def)
    with b(3) have "j - t < length (V ! k)" by simp
    from pos [OF k(1) this] tj have "in_bounds rows (loc k (int j + (- int t)))"
      by (simp add: of_nat_diff)
    then show ?thesis
      unfolding lin using b(1,2) sd opp by (simp add: step_from_def)
  qed
qed

lemma step_from_0 [simp]: "step_from start dir 0 = start"
  by (simp add: step_from_def)


lemma hit_in_bounds:
  assumes ok: "grid_ok g"
    and hit: "scan row_match word 0 (grid_text g) = Some m \<or>
              scan column_match word 0 (columns g) = Some m \<or>
              scan (up_right_match (length (grid_text g))) word 0 (diag_up_right g) = Some m \<or>
              scan (down_right_match (length (grid_text g))) word 0 (diag_down_right g) = Some m"
  shows "\<forall>t<length word. in_bounds (grid_text g) (step_from (fst m) (snd m) t)"
proof -
  note v = grid_ok_views [OF ok]
  from v(2) obtain g0 where g0: "post_init (grid_text g) = Inr g0" "columns g0 = columns g"
    "diag_up_right g0 = diag_up_right g" "diag_down_right g0 = diag_down_right g" by blast
  note fam = rearranges_rows [OF v(1)] rearranges_columns [OF v(1) g0(1), unfolded g0(2)]
    rearranges_up_right [OF v(1) g0(1), unfolded g0(3)]
    rearranges_down_right [OF v(1) g0(1), unfolded g0(4)]
  obtain start dir where m: "m = (start, dir)" by (cases m)
  from hit show ?thesis unfolding m fst_conv snd_conv
  proof (elim disjE)
    assume "scan row_match word 0 (grid_text g) = Some (start, dir)"
    then show "\<forall>t<length word. in_bounds (grid_text g) (step_from start dir t)"
    proof (rule scan_cells_in_bounds [where loc = "\<lambda>n i. Location (int n) i"
          and dF = RIGHT and dB = LEFT])
      fix n i assume "n < length (grid_text g)" "i < length (grid_text g ! n)"
      with fam(1) show "in_bounds (grid_text g) (Location (int n) (int i))"
        unfolding rearranges_def by blast
    qed (simp_all add: row_match_def)
  next
    assume "scan column_match word 0 (columns g) = Some (start, dir)"
    then show "\<forall>t<length word. in_bounds (grid_text g) (step_from start dir t)"
    proof (rule scan_cells_in_bounds [where loc = "\<lambda>n i. Location i (int n)"
          and dF = DOWN and dB = UP])
      fix n i assume "n < length (columns g)" "i < length (columns g ! n)"
      with fam(2) show "in_bounds (grid_text g) (Location (int i) (int n))"
        unfolding rearranges_def by blast
    qed (simp_all add: column_match_def)
  next
    assume "scan (up_right_match (length (grid_text g))) word 0 (diag_up_right g)
        = Some (start, dir)"
    then show "\<forall>t<length word. in_bounds (grid_text g) (step_from start dir t)"
    proof (rule scan_cells_in_bounds [where loc = "up_right_loc (length (grid_text g))"
          and dF = ANGLED_UP_RIGHT and dB = ANGLED_DOWN_LEFT])
      fix n i assume "n < length (diag_up_right g)" "i < length (diag_up_right g ! n)"
      with fam(3) show "in_bounds (grid_text g) (up_right_loc (length (grid_text g)) n (int i))"
        unfolding rearranges_def by blast
    qed (simp_all add: up_right_match_def up_right_loc_def)
  next
    assume "scan (down_right_match (length (grid_text g))) word 0 (diag_down_right g)
        = Some (start, dir)"
    then show "\<forall>t<length word. in_bounds (grid_text g) (step_from start dir t)"
    proof (rule scan_cells_in_bounds [where loc = "down_right_loc (length (grid_text g))"
          and dF = ANGLED_DOWN_RIGHT and dB = ANGLED_UP_LEFT])
      fix n i assume "n < length (diag_down_right g)" "i < length (diag_down_right g ! n)"
      with fam(4) show "in_bounds (grid_text g) (down_right_loc (length (grid_text g)) n (int i))"
        unfolding rearranges_def by blast
    qed (simp_all add: down_right_match_def down_right_loc_def)
  qed
qed

lemma mark_ok:
  assumes ok: "grid_ok g"
    and inb: "\<forall>t<length word. in_bounds (grid_text g) (step_from start dir t)"
  shows "\<exists>g'. mark g word color (start, dir) = Inr (g', Some (start, dir)) \<and> grid_ok g' \<and>
           grid_text g' = grid_text g \<and> columns g' = columns g \<and>
           diag_up_right g' = diag_up_right g \<and> diag_down_right g' = diag_down_right g \<and>
           (\<forall>r<length (grid_text g). \<forall>c<length (hd (grid_text g)).
              highlighted g' ! r ! c =
                (if Location (int r) (int c) \<in> step_from start dir ` {0..<length word}
                 then color @ [grid_text g ! r ! c] @ Fore_RESET
                 else highlighted g ! r ! c))"
proof -
  from inb have "\<forall>t \<in> set [0..<length word]. in_bounds (grid_text g)
      (Location (row start + int t * fst (offsets dir)) (column start + int t * snd (offsets dir)))"
    by (simp add: step_from_def)
  from highlight_loop_ok [OF ok this, of color] obtain g' where g':
    "highlight_loop g start (offsets dir) color [0..<length word] = Inr g'" "grid_ok g'"
    "grid_text g' = grid_text g" "columns g' = columns g"
    "diag_up_right g' = diag_up_right g" "diag_down_right g' = diag_down_right g"
    and cells: "\<forall>r<length (grid_text g). \<forall>c<length (hd (grid_text g)).
              highlighted g' ! r ! c =
                (if \<exists>t \<in> set [0..<length word].
                      Location (row start + int t * fst (offsets dir))
                               (column start + int t * snd (offsets dir)) = Location (int r) (int c)
                 then color @ [grid_text g ! r ! c] @ Fore_RESET
                 else highlighted g ! r ! c)"
    by blast
  have e: "(\<exists>t \<in> set [0..<length word].
              Location (row start + int t * fst (offsets dir))
                       (column start + int t * snd (offsets dir)) = l)
        \<longleftrightarrow> l \<in> step_from start dir ` {0..<length word}" for l
    by (auto simp: step_from_def image_iff)
  from g'(1) have "mark g word color (start, dir) = Inr (g', Some (start, dir))"
    by (simp add: mark_def highlight_def)
  with g'(2-6) cells show ?thesis unfolding e by blast
qed

lemma find_word_cases:
  "find_word g word color = Inr (g, None) \<or>
   (\<exists>m. find_word g word color = mark g word color m \<and>
      (scan row_match word 0 (grid_text g) = Some m \<or>
       scan column_match word 0 (columns g) = Some m \<or>
       scan (up_right_match (length (grid_text g))) word 0 (diag_up_right g) = Some m \<or>
       scan (down_right_match (length (grid_text g))) word 0 (diag_down_right g) = Some m))"
proof (cases "scan row_match word 0 (grid_text g)")
  case (Some m)
  then show ?thesis by (intro disjI2 exI [of _ m]) (simp add: find_word_def)
next
  case r: None
  show ?thesis
  proof (cases "scan column_match word 0 (columns g)")
    case (Some m)
    with r show ?thesis by (intro disjI2 exI [of _ m]) (simp add: find_word_def)
  next
    case c: None
    show ?thesis
    proof (cases "scan (up_right_match (length (grid_text g))) word 0 (diag_up_right g)")
      case (Some m)
      with r c show ?thesis by (intro disjI2 exI [of _ m]) (simp add: find_word_def)
    next
      case u: None
      show ?thesis
      proof (cases "scan (down_right_match (length (grid_text g))) word 0 (diag_down_right g)")
        case (Some m)
        with r c u show ?thesis by (intro disjI2 exI [of _ m]) (simp add: find_word_def)
      next
        case None
        with r c u show ?thesis by (simp add: find_word_def)
      qed
    qed
  qed
qed

lemma find_word_ok:
  assumes ok: "grid_ok g"
  shows "find_word g word color = Inr (g, None) \<or>
    (\<exists>g' start dir. find_word g word color = Inr (g', Some (start, dir)) \<and> grid_ok g' \<and>
       (\<forall>t<length word. in_bounds (grid_text g) (step_from start dir t)) \<and>
       grid_text g' = grid_text g \<and> columns g' = columns g \<and>
       diag_up_right g' = diag_up_right g \<and> diag_down_right g' = diag_down_right g \<and>
       (\<forall>r<length (grid_text g). \<forall>c<length (hd (grid_text g)).
          highlighted g' ! r ! c =
            (if Location (int r) (int c) \<in> step_from start dir ` {0..<length word}
             then color @ [grid_text g ! r ! c] @ Fore_RESET
             else highlighted g ! r ! c)))"
proof -
  from find_word_cases [of g word color]
  consider (absent) "find_word g word color = Inr (g, None)"
    | (hit) m where "find_word g word color = mark g word color m"
      "scan row_match word 0 (grid_text g) = Some m \<or>
       scan column_match word 0 (columns g) = Some m \<or>
       scan (up_right_match (length (grid_text g))) word 0 (diag_up_right g) = Some m \<or>
       scan (down_right_match (length (grid_text g))) word 0 (diag_down_right g) = Some m"
    by blast
  then show ?thesis
  proof cases
    case absent
    then show ?thesis by simp
  next
    case (hit m)
    obtain start dir where m: "m = (start, dir)" by (cases m)
    from hit_in_bounds [OF ok hit(2)] m
    have inb: "\<forall>t<length word. in_bounds (grid_text g) (step_from start dir t)" by simp
    from mark_ok [OF ok inb, of color] obtain g' where g':
      "mark g word color (start, dir) = Inr (g', Some (start, dir))" "grid_ok g'"
      "grid_text g' = grid_text g" "columns g' = columns g"
      "diag_up_right g' = diag_up_right g" "diag_down_right g' = diag_down_right g"
      "\<forall>r<length (grid_text g). \<forall>c<length (hd (grid_text g)).
          highlighted g' ! r ! c =
            (if Location (int r) (int c) \<in> step_from start dir ` {0..<length word}
             then color @ [grid_text g ! r ! c] @ Fore_RESET
             else highlighted g ! r ! c)"
      by blast
    from hit(1) g'(1) have f: "find_word g word color = Inr (g', Some (start, dir))"
      unfolding m by simp
    show ?thesis
      by (intro disjI2 exI [of _ g'] exI [of _ start] exI [of _ dir] conjI)
        (fact f g' inb)+
  qed
qed

lemma find_word_Nil:
  assumes "grid_text g \<noteq> []"
  shows "find_word g [] color = Inr (g, Some (Location 0 0, RIGHT))"
proof -
  from assms obtain v vs where "grid_text g = v # vs" by (cases "grid_text g") auto
  then have "scan row_match [] 0 (grid_text g) = Some (Location 0 0, RIGHT)"
    by (simp add: find_in_group_empty row_match_def)
  then show ?thesis by (simp add: find_word_def mark_def highlight_def)
qed

lemma grid_at_in_bounds:
  assumes "wf_rows rows" "in_bounds rows loc"
  shows "\<exists>letter. grid_at rows loc = Inr letter"
proof -
  from assms(2) obtain r c where "loc = Location (int r) (int c)" "r < length rows"
    "c < length (hd rows)" by (rule in_bounds_nat)
  with grid_at_nat(1) [OF assms(1), of r c] show ?thesis by simp
qed

lemma scan_first:
  assumes "k < length V" "find_in_group word (V ! k) = Some res"
    "\<forall>j<k. find_in_group word (V ! j) = None"
  shows "scan resolve word n V = Some (resolve (n + k) res)"
  using assms
proof (induction V arbitrary: n k)
  case Nil
  then show ?case by simp
next
  case (Cons v vs)
  show ?case
  proof (cases k)
    case 0
    with Cons.prems show ?thesis by simp
  next
    case (Suc k')
    with Cons.prems have "find_in_group word v = None" by auto
    moreover have "scan resolve word (Suc n) vs = Some (resolve (Suc n + k') res)"
      using Cons.prems Suc by (intro Cons.IH) auto
    ultimately show ?thesis using Suc by simp
  qed
qed

lemma scan_absent:
  assumes "\<forall>v \<in> set V. \<not> occurs word v"
  shows "scan resolve word n V = None"
  using assms by (simp add: scan_None_iff find_in_group_None_iff occurs_def)

lemma mark_Inr: "mark g word color m = Inr (g', res) \<Longrightarrow> res = Some m"
  by (auto simp: mark_def split: sum.splits)

lemma find_word_by_family:
  assumes before: "\<forall>f \<in> set (earlier fam). \<forall>v \<in> set (views g f). \<not> occurs word v"
    and k: "k < length (views g fam)"
    and res: "find_in_group word (views g fam ! k) = Some (idx, fwd)"
    and least: "\<forall>j<k. \<not> occurs word (views g fam ! j)"
  shows "find_word g word color =
         mark g word color (family_location g fam k idx, family_direction fam fwd)"
proof -
  from least have l: "\<forall>j<k. find_in_group word (views g fam ! j) = None"
    by (simp add: find_in_group_None_iff occurs_def)
  note s = scan_first [OF k res l, where n = 0, simplified]
  show ?thesis
  proof (cases fam)
    case Row
    with s [of row_match] show ?thesis
      by (simp add: find_word_def row_match_def)
  next
    case Column
    with before have "scan row_match word 0 (grid_text g) = None"
      by (simp add: scan_absent)
    with Column s [of column_match] show ?thesis
      by (simp add: find_word_def column_match_def)
  next
    case UpRight
    with before have "scan row_match word 0 (grid_text g) = None"
      "scan column_match word 0 (columns g) = None"
      by (simp_all add: scan_absent)
    with UpRight s [of "up_right_match (length (grid_text g))"] show ?thesis
      by (simp add: find_word_def up_right_match_def)
  next
    case DownRight
    with before have "scan row_match word 0 (grid_text g) = None"
      "scan column_match word 0 (columns g) = None"
      "scan (up_right_match (length (grid_text g))) word 0 (diag_up_right g) = None"
      by (simp_all add: scan_absent)
    with DownRight s [of "down_right_match (length (grid_text g))"] show ?thesis
      by (simp add: find_word_def down_right_match_def)
  qed
qed

lemma grid_ok_example:
  "grid_ok \<lparr>grid_text = [''ABC'', ''DEF'', ''GHI''],
      columns = [''ADG'', ''BEH'', ''CFI''],
      diag_up_right = [''A'', ''DB'', ''GEC'', ''HF'', ''I''],
      diag_down_right = [''G'', ''DH'', ''AEI'', ''BF'', ''C''],
      highlighted = [[''A'', ''B'', ''C''], [''D'', ''E'', ''F''], [''G'', ''H'', ''I'']]\<rparr>"
proof -
  have "wf_rows [''ABC'', ''DEF'', ''GHI'']" by (simp add: wf_rows_def)
  then show ?thesis using post_init_example by (rule grid_ok_post_init)
qed

lemma find_word_example:
  "find_word \<lparr>grid_text = [''ABC'', ''DEF'', ''GHI''],
      columns = [''ADG'', ''BEH'', ''CFI''],
      diag_up_right = [''A'', ''DB'', ''GEC'', ''HF'', ''I''],
      diag_down_right = [''G'', ''DH'', ''AEI'', ''BF'', ''C''],
      highlighted = [[''A'', ''B'', ''C''], [''D'', ''E'', ''F''], [''G'', ''H'', ''I'']]\<rparr>
     ''CEG'' ''*'' =
   Inr (\<lparr>grid_text = [''ABC'', ''DEF'', ''GHI''],
      columns = [''ADG'', ''BEH'', ''CFI''],
      diag_up_right = [''A'', ''DB'', ''GEC'', ''HF'', ''I''],
      diag_down_right = [''G'', ''DH'', ''AEI'', ''BF'', ''C''],
      highlighted = [[''A'', ''B'', ''*C'' @ Fore_RESET],
                     [''D'', ''*E'' @ Fore_RESET, ''F''],
                     [''*G'' @ Fore_RESET, ''H'', ''I'']]\<rparr>,
     Some (Location 0 2, ANGLED_DOWN_LEFT))"
  by code_simp





lemma grid_ok_both_ways:
  "grid_ok \<lparr>grid_text = [''XXX'', ''ABA''], columns = [''XA'', ''XB'', ''XA''],
      diag_up_right = [''X'', ''AX'', ''BX'', ''A''],
      diag_down_right = [''A'', ''XB'', ''XA'', ''X''],
      highlighted = [[''X'', ''X'', ''X''], [''A'', ''B'', ''A'']]\<rparr>"
proof -
  have "wf_rows [''XXX'', ''ABA'']" by (simp add: wf_rows_def)
  moreover have "post_init [''XXX'', ''ABA''] =
    Inr \<lparr>grid_text = [''XXX'', ''ABA''], columns = [''XA'', ''XB'', ''XA''],
      diag_up_right = [''X'', ''AX'', ''BX'', ''A''],
      diag_down_right = [''A'', ''XB'', ''XA'', ''X''],
      highlighted = [[''X'', ''X'', ''X''], [''A'', ''B'', ''A'']]\<rparr>"
    by code_simp
  ultimately show ?thesis by (rule grid_ok_post_init)
qed

lemma grid_ok_several_views:
  "grid_ok \<lparr>grid_text = [''XAA'', ''XBB''], columns = [''XX'', ''AB'', ''AB''],
      diag_up_right = [''X'', ''XA'', ''BA'', ''B''],
      diag_down_right = [''X'', ''XB'', ''AB'', ''A''],
      highlighted = [[''X'', ''A'', ''A''], [''X'', ''B'', ''B'']]\<rparr>"
proof -
  have "wf_rows [''XAA'', ''XBB'']" by (simp add: wf_rows_def)
  moreover have "post_init [''XAA'', ''XBB''] =
    Inr \<lparr>grid_text = [''XAA'', ''XBB''], columns = [''XX'', ''AB'', ''AB''],
      diag_up_right = [''X'', ''XA'', ''BA'', ''B''],
      diag_down_right = [''X'', ''XB'', ''AB'', ''A''],
      highlighted = [[''X'', ''A'', ''A''], [''X'', ''B'', ''B'']]\<rparr>"
    by code_simp
  ultimately show ?thesis by (rule grid_ok_post_init)
qed

section \<open>The properties of the specification\<close>

subsection \<open>C2: the offset of a backward match\<close>

text \<open>
  Claim C2 says that a backward match found at offset \<open>k\<close> of the reversed line is
  returned with the offset \<open>lineLength - 1 - k - (wordLength - 1)\<close>. The docstring example
  of \<^verbatim>\<open>find_in_group\<close> refutes it: the word BATHROOM is found at offset 1 of the reversed
  line of 24 letters, the function returns 22, and the formula gives 15.
\<close>

theorem find_in_group_backward_offset_counterexample:
  "\<not> sublist ''BATHROOM'' ''RRXIEWFUFPURLWLMOORHTABS'' \<and>
   first_index ''BATHROOM'' (rev ''RRXIEWFUFPURLWLMOORHTABS'') = Some 1 \<and>
   find_in_group ''BATHROOM'' ''RRXIEWFUFPURLWLMOORHTABS'' = Some (22, False) \<and>
   (22::int) \<noteq> int (length ''RRXIEWFUFPURLWLMOORHTABS'') - 1 - 1 - (int (length ''BATHROOM'') - 1)"
  by code_simp

text \<open>
  Claim C2, amended: for a word with no forward occurrence in the line that is found in
  the reversed line at offset \<open>k\<close>, \<^verbatim>\<open>find_in_group\<close> returns the backward match
  \<open>(lineLength - 1 - k, False)\<close>. That offset is the index of the first letter of the
  word, which is read from there towards the start of the line; the offset
  \<open>lineLength - 1 - k - (wordLength - 1)\<close> is the other end of the occurrence, where the
  reversed word starts. Each loop of \<^verbatim>\<open>find_word\<close> turns the flag \<open>False\<close> into the
  reverse of its primary direction.
\<close>

theorem find_in_group_backward_start:
  assumes "\<not> sublist word line" and "first_index word (rev line) = Some k"
  shows "find_in_group word line = Some (int (length line) - 1 - int k, False) \<and>
         k < length line \<and>
         backward_at line word (length line - 1 - k) \<and>
         forward_at line (rev word) (length line - 1 - k - (length word - 1)) \<and>
         snd (row_match n (int (length line) - 1 - int k, False)) = LEFT \<and>
         snd (column_match n (int (length line) - 1 - int k, False)) = UP \<and>
         snd (up_right_match num_rows n (int (length line) - 1 - int k, False)) = ANGLED_DOWN_LEFT \<and>
         snd (down_right_match num_rows n (int (length line) - 1 - int k, False)) = ANGLED_UP_LEFT"
proof -
  from assms(1) have ne: "word \<noteq> []" by auto
  from first_index_rev_backward [OF ne assms(2)]
  have k: "k < length line" and b: "backward_at line word (length line - 1 - k)" by auto
  let ?j = "length line - 1 - k"
  from b have l: "length word \<le> Suc ?j" "?j < length line"
    and t: "rev (take (length word) (drop (Suc ?j - length word) line)) = word"
    by (auto simp: backward_at_def)
  from ne have "0 < length word" by simp
  with l have e: "Suc ?j - length word = ?j - (length word - 1)" by arith
  from t have "take (length word) (drop (Suc ?j - length word) line) = rev word"
    by (metis rev_rev_ident)
  then have tk: "take (length (rev word)) (drop (?j - (length word - 1)) line) = rev word"
    unfolding e by simp
  have "?j - (length word - 1) + length (rev word) \<le> length line"
    using l \<open>0 < length word\<close> by simp
  with tk have f: "forward_at line (rev word) (?j - (length word - 1))"
    unfolding forward_at_def by blast
  show ?thesis
    using find_in_group_backward [OF assms] k b f
    by (simp add: row_match_def column_match_def up_right_match_def down_right_match_def)
qed

theorem find_in_group_backward_start_witness:
  "\<not> sublist ''BATHROOM'' ''RRXIEWFUFPURLWLMOORHTABS'' \<and>
   first_index ''BATHROOM'' (rev ''RRXIEWFUFPURLWLMOORHTABS'') = Some 1 \<and>
   find_in_group ''BATHROOM'' ''RRXIEWFUFPURLWLMOORHTABS'' = Some (22, False)"
proof -
  have h1: "\<not> sublist ''BATHROOM'' ''RRXIEWFUFPURLWLMOORHTABS''" by code_simp
  have h2: "first_index ''BATHROOM'' (rev ''RRXIEWFUFPURLWLMOORHTABS'') = Some 1" by code_simp
  from find_in_group_backward_start [OF h1 h2, of 0 1]
  have "find_in_group ''BATHROOM'' ''RRXIEWFUFPURLWLMOORHTABS'' = Some (22, False)" by simp
  with h1 h2 show ?thesis by simp
qed

subsection \<open>C10: the rightmost backward occurrence\<close>

text \<open>
  Claim C10: when the word does not occur forwards in the line and occurs backwards
  (at some start column \<open>j\<close>, possibly at several), \<^verbatim>\<open>find_in_group\<close> returns the index
  \<open>len(line) - 1 - k\<close>, where \<open>k\<close> is the first occurrence of the word in the reversed
  line; this is a backward occurrence, and no backward occurrence starts further right.
\<close>

theorem find_in_group_rightmost_backward:
  assumes "\<not> sublist word line" and "backward_at line word j"
  shows "\<exists>k idx. first_index word (rev line) = Some k \<and> idx = length line - 1 - k \<and>
           find_in_group word line = Some (int (length line) - 1 - int k, False) \<and>
           int idx = int (length line) - 1 - int k \<and>
           backward_at line word idx \<and> j \<le> idx \<and>
           (\<forall>j'. backward_at line word j' \<longrightarrow> j' \<le> idx)"
proof -
  from assms(1) have ne: "word \<noteq> []" by auto
  from assms(2) have "forward_at (rev line) word (length line - 1 - j)"
    by (simp add: backward_at_rev)
  then have "sublist word (rev line)" by (rule forward_at_sublist)
  then obtain k where k: "first_index word (rev line) = Some k"
    using first_index_None_iff [of word "rev line"] by auto
  from first_index_rev_backward [OF ne k]
  have r: "k < length line" "backward_at line word (length line - 1 - k)"
    "\<forall>j'. backward_at line word j' \<longrightarrow> j' \<le> length line - 1 - k" by auto
  from r(1) have "int (length line - 1 - k) = int (length line) - 1 - int k" by arith
  with find_in_group_backward [OF assms(1) k] k r assms(2) show ?thesis by blast
qed

theorem find_in_group_rightmost_backward_witness:
  "\<not> sublist ''AB'' ''XBAYBA'' \<and> backward_at ''XBAYBA'' ''AB'' 2 \<and>
   backward_at ''XBAYBA'' ''AB'' 5 \<and>
   find_in_group ''AB'' ''XBAYBA'' = Some (5, False)"
proof -
  have h1: "\<not> sublist ''AB'' ''XBAYBA''" by code_simp
  have h2: "backward_at ''XBAYBA'' ''AB'' 2" by (simp add: backward_at_def)
  have h3: "first_index ''AB'' (rev ''XBAYBA'') = Some 0" by code_simp
  have h4: "backward_at ''XBAYBA'' ''AB'' 5" by (simp add: backward_at_def)
  from find_in_group_rightmost_backward [OF h1 h2] h3
  have "find_in_group ''AB'' ''XBAYBA'' = Some (5, False)" by simp
  with h1 h2 h4 show ?thesis by simp
qed

subsection \<open>C7: a word that is absent\<close>

text \<open>
  Claim C7: for every grid and every word that occurs in no view of the four families,
  neither forwards nor backwards, \<^verbatim>\<open>find_word\<close> returns normally with the result
  \<open>None\<close> and the grid, overlay included, unchanged; a second call on the grid that
  the first one leaves does the same.
\<close>

theorem find_word_absent:
  assumes "\<forall>v \<in> set (grid_text g) \<union> set (columns g) \<union> set (diag_up_right g)
                \<union> set (diag_down_right g).
             \<not> sublist word v \<and> \<not> sublist word (rev v)"
  shows "find_word g word color = Inr (g, None) \<and>
         (\<forall>g' res. find_word g word color = Inr (g', res) \<longrightarrow>
            res = None \<and> highlighted g' = highlighted g \<and>
            find_word g' word color' = Inr (g', None))"
proof -
  from assms have "\<forall>v \<in> set (grid_text g). find_in_group word v = None"
    "\<forall>v \<in> set (columns g). find_in_group word v = None"
    "\<forall>v \<in> set (diag_up_right g). find_in_group word v = None"
    "\<forall>v \<in> set (diag_down_right g). find_in_group word v = None"
    by (simp_all add: find_in_group_None_iff)
  then have "scan row_match word 0 (grid_text g) = None"
    "scan column_match word 0 (columns g) = None"
    "scan (up_right_match (length (grid_text g))) word 0 (diag_up_right g) = None"
    "scan (down_right_match (length (grid_text g))) word 0 (diag_down_right g) = None"
    by (simp_all add: scan_None_iff)
  then have "find_word g word c = Inr (g, None)" for c
    by (simp add: find_word_def)
  then show ?thesis by simp
qed

theorem find_word_absent_witness:
  "find_word
     \<lparr>grid_text = [''ABC'', ''DEF'', ''GHI''],
      columns = [''ADG'', ''BEH'', ''CFI''],
      diag_up_right = [''A'', ''DB'', ''GEC'', ''HF'', ''I''],
      diag_down_right = [''G'', ''DH'', ''AEI'', ''BF'', ''C''],
      highlighted = [[''A'', ''B'', ''C''], [''D'', ''E'', ''F''], [''G'', ''H'', ''I'']]\<rparr>
     ''AC'' ''red'' =
   Inr (\<lparr>grid_text = [''ABC'', ''DEF'', ''GHI''],
      columns = [''ADG'', ''BEH'', ''CFI''],
      diag_up_right = [''A'', ''DB'', ''GEC'', ''HF'', ''I''],
      diag_down_right = [''G'', ''DH'', ''AEI'', ''BF'', ''C''],
      highlighted = [[''A'', ''B'', ''C''], [''D'', ''E'', ''F''], [''G'', ''H'', ''I'']]\<rparr>, None)"
proof -
  let ?g = "\<lparr>grid_text = [''ABC'', ''DEF'', ''GHI''],
      columns = [''ADG'', ''BEH'', ''CFI''],
      diag_up_right = [''A'', ''DB'', ''GEC'', ''HF'', ''I''],
      diag_down_right = [''G'', ''DH'', ''AEI'', ''BF'', ''C''],
      highlighted = [[''A'', ''B'', ''C''], [''D'', ''E'', ''F''], [''G'', ''H'', ''I'']]\<rparr>"
  have h: "\<forall>v \<in> set (grid_text ?g) \<union> set (columns ?g) \<union> set (diag_up_right ?g)
                \<union> set (diag_down_right ?g).
             \<not> sublist ''AC'' v \<and> \<not> sublist ''AC'' (rev v)"
    by (simp add: sublist_Cons_right)
  from find_word_absent [OF h] show ?thesis by blast
qed

subsection \<open>C9: the empty word\<close>

text \<open>
  Claim C9: on every well-formed grid, \<^verbatim>\<open>find_word\<close> called with the empty string
  returns the match at row 0, column 0 with direction RIGHT (left to right), and the
  grid it leaves is the grid it was given: no overlay cell is written.
\<close>

theorem find_word_empty:
  assumes "wf_rows (grid_text g)"
  shows "find_word g [] color = Inr (g, Some (Location 0 0, RIGHT)) \<and>
         highlighted (fst (projr (find_word g [] color))) = highlighted g"
proof -
  from assms obtain v vs where "grid_text g = v # vs"
    by (cases "grid_text g") (auto simp: wf_rows_def)
  then have "scan row_match [] 0 (grid_text g) = Some (Location 0 0, RIGHT)"
    by (simp add: find_in_group_empty row_match_def)
  then have "find_word g [] color = Inr (g, Some (Location 0 0, RIGHT))"
    by (simp add: find_word_def mark_def highlight_def)
  then show ?thesis by simp
qed

theorem find_word_empty_witness:
  "wf_rows [''ABC'', ''DEF'', ''GHI''] \<and>
   find_word
     \<lparr>grid_text = [''ABC'', ''DEF'', ''GHI''],
      columns = [''ADG'', ''BEH'', ''CFI''],
      diag_up_right = [''A'', ''DB'', ''GEC'', ''HF'', ''I''],
      diag_down_right = [''G'', ''DH'', ''AEI'', ''BF'', ''C''],
      highlighted = [[''A'', ''B'', ''C''], [''D'', ''E'', ''F''], [''G'', ''H'', ''I'']]\<rparr>
     [] ''red'' =
   Inr (\<lparr>grid_text = [''ABC'', ''DEF'', ''GHI''],
      columns = [''ADG'', ''BEH'', ''CFI''],
      diag_up_right = [''A'', ''DB'', ''GEC'', ''HF'', ''I''],
      diag_down_right = [''G'', ''DH'', ''AEI'', ''BF'', ''C''],
      highlighted = [[''A'', ''B'', ''C''], [''D'', ''E'', ''F''], [''G'', ''H'', ''I'']]\<rparr>,
      Some (Location 0 0, RIGHT))"
proof -
  let ?g = "\<lparr>grid_text = [''ABC'', ''DEF'', ''GHI''],
      columns = [''ADG'', ''BEH'', ''CFI''],
      diag_up_right = [''A'', ''DB'', ''GEC'', ''HF'', ''I''],
      diag_down_right = [''G'', ''DH'', ''AEI'', ''BF'', ''C''],
      highlighted = [[''A'', ''B'', ''C''], [''D'', ''E'', ''F''], [''G'', ''H'', ''I'']]\<rparr>"
  have h: "wf_rows [''ABC'', ''DEF'', ''GHI'']" by (simp add: wf_rows_def)
  then have "wf_rows (grid_text ?g)" by simp
  from find_word_empty [OF this] h show ?thesis by blast
qed

subsection \<open>C1: what the constructor accepts\<close>

text \<open>
  Claim C1 says that construction fails with MalformedGridError on an empty sequence of
  rows and on rows of unequal length. The constructor has no such check and no such
  error: rows of unequal length are accepted when no row is longer than row 0.
\<close>

theorem post_init_unequal_rows_counterexample:
  "length ''AB'' \<noteq> length ''C'' \<and>
   post_init [''AB'', ''C''] =
     Inr \<lparr>grid_text = [''AB'', ''C''], columns = [''AC'', ''B''],
          diag_up_right = [''A'', ''CB'', []], diag_down_right = [''C'', ''A'', ''B''],
          highlighted = [[''A'', ''B''], [''C'']]\<rparr>"
  by code_simp

text \<open>
  Claim C1, amended: construction fails, with IndexError, on an empty sequence of rows
  and whenever some row is longer than row 0, and in no other case; for every non-empty
  sequence of equal-length rows it succeeds and returns a Grid whose text is the rows.
\<close>

theorem post_init_outcome:
  "(rows = [] \<longrightarrow> post_init rows = Inl IndexError) \<and>
   ((\<exists>line \<in> set rows. length (hd rows) < length line) \<longrightarrow> post_init rows = Inl IndexError) \<and>
   (wf_rows rows \<longrightarrow> (\<exists>g. post_init rows = Inr g \<and> grid_text g = rows)) \<and>
   (isl (post_init rows) \<longleftrightarrow>
      rows = [] \<or> (\<exists>line \<in> set rows. length (hd rows) < length line))"
proof -
  have a: "post_init rows = Inl IndexError" if "rows = []"
    using that by (simp add: post_init_Nil)
  have b: "post_init rows = Inl IndexError"
    if "\<exists>line \<in> set rows. length (hd rows) < length line"
    using that by (rule post_init_fail)
  have c: "\<exists>g. post_init rows = Inr g \<and> grid_text g = rows" if "wf_rows rows"
    unfolding post_init_wf [OF that] by simp
  have d: "\<not> isl (post_init rows)"
    if "rows \<noteq> []" "\<not> (\<exists>line \<in> set rows. length (hd rows) < length line)"
  proof -
    from that(2) have "\<forall>line \<in> set rows. length line \<le> length (hd rows)"
      by (meson not_less)
    from post_init_ok [OF that(1) this] show ?thesis by simp
  qed
  from a b c d show ?thesis by (metis sum.disc(1))
qed

theorem post_init_outcome_witness:
  "post_init [] = Inl IndexError \<and>
   post_init [''A'', ''BC''] = Inl IndexError \<and>
   wf_rows [''ABC'', ''DEF'', ''GHI''] \<and>
   (\<exists>g. post_init [''ABC'', ''DEF'', ''GHI''] = Inr g \<and> grid_text g = [''ABC'', ''DEF'', ''GHI''])"
proof -
  have h1: "\<exists>line \<in> set [''A'', ''BC'']. length (hd [''A'', ''BC'']) < length line" by simp
  have h2: "wf_rows [''ABC'', ''DEF'', ''GHI'']" by (simp add: wf_rows_def)
  from post_init_outcome [of "[]"] have a: "post_init [] = Inl IndexError" by blast
  from post_init_outcome [of "[''A'', ''BC'']"] h1
  have b: "post_init [''A'', ''BC''] = Inl IndexError" by blast
  from post_init_outcome [of "[''ABC'', ''DEF'', ''GHI'']"] h2
  have c: "\<exists>g. post_init [''ABC'', ''DEF'', ''GHI''] = Inr g \<and> grid_text g = [''ABC'', ''DEF'', ''GHI'']"
    by blast
  from a b h2 c show ?thesis by blast
qed

subsection \<open>C3: the coordinate back-transform of the diagonals\<close>

text \<open>
  Claim C3: for every well-formed grid, every diagonal index \<open>d\<close> (there are
  \<open>rows + cols - 1\<close> diagonals in each family) and every offset \<open>i\<close> into the view
  \<open>d\<close>, the location that \<^verbatim>\<open>find_word\<close> computes is \<open>(d - i, i)\<close> if \<open>d < rows\<close> and
  \<open>(rows - i - 1, (d - rows) + i + 1)\<close> otherwise for the up-right family,
  \<open>(rows - d + i - 1, i)\<close> if \<open>d < rows\<close> and \<open>(i, d - rows + i + 1)\<close> otherwise for the
  down-right family; it is within the bounds of the grid, and \<^verbatim>\<open>text[row][col]\<close> is the
  \<open>i\<close>-th character of the view.
\<close>

theorem diagonal_back_transform:
  assumes "wf_rows rows" and "post_init rows = Inr g"
  shows
    "length (diag_up_right g) = length rows + length (hd rows) - 1 \<and>
     length (diag_down_right g) = length rows + length (hd rows) - 1 \<and>
     (\<forall>d<length (diag_up_right g). \<forall>i<length (diag_up_right g ! d).
        fst (up_right_match (length (grid_text g)) d (int i, fwd)) =
          (if d < length rows then Location (int d - int i) (int i)
           else Location (int (length rows) - int i - 1) ((int d - int (length rows)) + int i + 1)) \<and>
        in_bounds rows (fst (up_right_match (length (grid_text g)) d (int i, fwd))) \<and>
        grid_at rows (fst (up_right_match (length (grid_text g)) d (int i, fwd)))
          = Inr (diag_up_right g ! d ! i)) \<and>
     (\<forall>d<length (diag_down_right g). \<forall>i<length (diag_down_right g ! d).
        fst (down_right_match (length (grid_text g)) d (int i, fwd)) =
          (if d < length rows then Location (int (length rows) - int d + int i - 1) (int i)
           else Location (int i) (int d - int (length rows) + int i + 1)) \<and>
        in_bounds rows (fst (down_right_match (length (grid_text g)) d (int i, fwd))) \<and>
        grid_at rows (fst (down_right_match (length (grid_text g)) d (int i, fwd)))
          = Inr (diag_down_right g ! d ! i))"
proof -
  note t = views_wf(1) [OF assms]
  have u: "fst (up_right_match (length rows) d (i, fwd)) = up_right_loc (length rows) d i"
    for d i by (simp add: up_right_match_def)
  have v: "fst (down_right_match (length rows) d (i, fwd)) = down_right_loc (length rows) d i"
    for d i by (simp add: down_right_match_def)
  from rearranges_up_right [OF assms]
  have 1: "\<forall>d<length (diag_up_right g). \<forall>i<length (diag_up_right g ! d).
      in_bounds rows (up_right_loc (length rows) d (int i)) \<and>
      grid_at rows (up_right_loc (length rows) d (int i)) = Inr (diag_up_right g ! d ! i)"
    unfolding rearranges_def by blast
  from rearranges_down_right [OF assms]
  have 2: "\<forall>d<length (diag_down_right g). \<forall>i<length (diag_down_right g ! d).
      in_bounds rows (down_right_loc (length rows) d (int i)) \<and>
      grid_at rows (down_right_loc (length rows) d (int i)) = Inr (diag_down_right g ! d ! i)"
    unfolding rearranges_def by blast
  have 3: "up_right_loc (length rows) d (int i) =
          (if d < length rows then Location (int d - int i) (int i)
           else Location (int (length rows) - int i - 1) ((int d - int (length rows)) + int i + 1))"
    for d i by (simp add: up_right_loc_def)
  have 4: "down_right_loc (length rows) d (int i) =
          (if d < length rows then Location (int (length rows) - int d + int i - 1) (int i)
           else Location (int i) (int d - int (length rows) + int i + 1))"
    for d i by (simp add: down_right_loc_def)
  show ?thesis
    unfolding t u v
    using length_up_right(1) [OF assms] length_down_right(1) [OF assms] 1 2 3 4
    by (intro conjI allI impI) blast+
qed

theorem diagonal_back_transform_witness:
  "wf_rows [''ABC'', ''DEF'', ''GHI''] \<and>
   post_init [''ABC'', ''DEF'', ''GHI''] =
     Inr \<lparr>grid_text = [''ABC'', ''DEF'', ''GHI''],
          columns = [''ADG'', ''BEH'', ''CFI''],
          diag_up_right = [''A'', ''DB'', ''GEC'', ''HF'', ''I''],
          diag_down_right = [''G'', ''DH'', ''AEI'', ''BF'', ''C''],
          highlighted = [[''A'', ''B'', ''C''], [''D'', ''E'', ''F''], [''G'', ''H'', ''I'']]\<rparr> \<and>
   grid_at [''ABC'', ''DEF'', ''GHI''] (Location 1 2) = Inr (CHR ''F'') \<and>
   grid_at [''ABC'', ''DEF'', ''GHI''] (Location 2 1) = Inr (CHR ''H'')"
proof -
  let ?rows = "[''ABC'', ''DEF'', ''GHI'']"
  let ?g = "\<lparr>grid_text = [''ABC'', ''DEF'', ''GHI''],
          columns = [''ADG'', ''BEH'', ''CFI''],
          diag_up_right = [''A'', ''DB'', ''GEC'', ''HF'', ''I''],
          diag_down_right = [''G'', ''DH'', ''AEI'', ''BF'', ''C''],
          highlighted = [[''A'', ''B'', ''C''], [''D'', ''E'', ''F''], [''G'', ''H'', ''I'']]\<rparr>"
  have h1: "wf_rows ?rows" by (simp add: wf_rows_def)
  have h2: "post_init ?rows = Inr ?g" by (rule post_init_example)
  note T = diagonal_back_transform [OF h1 h2, of True]
  from T have "3 < length (diag_up_right ?g) \<longrightarrow> 1 < length (diag_up_right ?g ! 3) \<longrightarrow>
      grid_at ?rows (fst (up_right_match (length (grid_text ?g)) 3 (int 1, True)))
        = Inr (diag_up_right ?g ! 3 ! 1)"
    by blast
  then have a: "grid_at ?rows (Location 1 2) = Inr (CHR ''F'')"
    by (simp add: up_right_match_def up_right_loc_def)
  from T have "1 < length (diag_down_right ?g) \<longrightarrow> 1 < length (diag_down_right ?g ! 1) \<longrightarrow>
      grid_at ?rows (fst (down_right_match (length (grid_text ?g)) 1 (int 1, True)))
        = Inr (diag_down_right ?g ! 1 ! 1)"
    by blast
  then have b: "grid_at ?rows (Location 2 1) = Inr (CHR ''H'')"
    by (simp add: down_right_match_def down_right_loc_def)
  from h1 h2 a b show ?thesis by blast
qed

subsection \<open>C6: the views are rearrangements of the grid\<close>

text \<open>
  Claim C6: for every well-formed grid, after construction the row views are the rows,
  \<open>columns[c][r]\<close> is the cell \<open>(r, c)\<close>, each of the four view families holds at
  every position the letter of an in-bounds cell and holds every cell at exactly one
  position, and the length of each view is the number of cells on its line: the
  number of columns for a row, the number of rows for a column, the number of cells
  with \<open>row + col = d\<close> for the up-right diagonal \<open>d\<close> and with
  \<open>col - row = d - (rows - 1)\<close> for the down-right diagonal \<open>d\<close>.
\<close>

theorem views_rearrange_grid:
  assumes "wf_rows rows" and "post_init rows = Inr g"
  shows
    "grid_text g = rows \<and>
     length (columns g) = length (hd rows) \<and>
     (\<forall>r<length rows. \<forall>c<length (hd rows).
        grid_text g ! r ! c = rows ! r ! c \<and> columns g ! c ! r = rows ! r ! c) \<and>
     rearranges rows (grid_text g) (\<lambda>n i. fst (row_match n (i, fwd))) \<and>
     rearranges rows (columns g) (\<lambda>n i. fst (column_match n (i, fwd))) \<and>
     rearranges rows (diag_up_right g)
       (\<lambda>n i. fst (up_right_match (length (grid_text g)) n (i, fwd))) \<and>
     rearranges rows (diag_down_right g)
       (\<lambda>n i. fst (down_right_match (length (grid_text g)) n (i, fwd))) \<and>
     (\<forall>r<length (grid_text g). length (grid_text g ! r) = length (hd rows)) \<and>
     (\<forall>c<length (columns g). length (columns g ! c) = length rows) \<and>
     (\<forall>d<length (diag_up_right g). length (diag_up_right g ! d) =
        card {(r, c). r < length rows \<and> c < length (hd rows) \<and> r + c = d}) \<and>
     (\<forall>d<length (diag_down_right g). length (diag_down_right g ! d) =
        card {(r, c). r < length rows \<and> c < length (hd rows) \<and>
                int c - int r = int d - (int (length rows) - 1)})"
proof -
  note t = views_wf(1) [OF assms]
  have m: "(\<lambda>n i. fst (row_match n (i, fwd))) = (\<lambda>n i. Location (int n) i)"
    "(\<lambda>n i. fst (column_match n (i, fwd))) = (\<lambda>n i. Location i (int n))"
    "(\<lambda>n i. fst (up_right_match (length rows) n (i, fwd))) = up_right_loc (length rows)"
    "(\<lambda>n i. fst (down_right_match (length rows) n (i, fwd))) = down_right_loc (length rows)"
    by (simp_all add: row_match_def column_match_def up_right_match_def down_right_match_def)
  from assms(1) have R: "0 < length rows" by (simp add: wf_rows_def)
  have c1: "length (columns g) = length (hd rows)"
    unfolding views_wf(2) [OF assms] by simp
  have c2: "columns g ! c ! r = rows ! r ! c" if "r < length rows" "c < length (hd rows)" for r c
    unfolding views_wf(2) [OF assms] using that by simp
  have c3: "length (columns g ! c) = length rows" if "c < length (columns g)" for c
    using that unfolding views_wf(2) [OF assms] by simp
  have r3: "length (rows ! r) = length (hd rows)" if "r < length rows" for r
    using wf_rows_nth [OF assms(1) that] .
  have u: "length (diag_up_right g ! d) =
        card {(r, c). r < length rows \<and> c < length (hd rows) \<and> r + c = d}"
    if "d < length (diag_up_right g)" for d
    using that length_up_right [OF assms] by (simp only: card_up_line)
  have d: "length (diag_down_right g ! d) =
        card {(r, c). r < length rows \<and> c < length (hd rows) \<and>
                int c - int r = int d - (int (length rows) - 1)}"
    if "d < length (diag_down_right g)" for d
    using that length_down_right [OF assms] by (simp only: card_down_line [OF R])
  show ?thesis
    unfolding t m
    using rearranges_rows [OF assms(1)] rearranges_columns [OF assms]
      rearranges_up_right [OF assms] rearranges_down_right [OF assms] c1 c2 c3 r3 u d
    by (intro conjI allI impI) blast+
qed

theorem views_rearrange_grid_witness:
  "wf_rows [''ABC'', ''DEF'', ''GHI''] \<and>
   post_init [''ABC'', ''DEF'', ''GHI''] =
     Inr \<lparr>grid_text = [''ABC'', ''DEF'', ''GHI''],
          columns = [''ADG'', ''BEH'', ''CFI''],
          diag_up_right = [''A'', ''DB'', ''GEC'', ''HF'', ''I''],
          diag_down_right = [''G'', ''DH'', ''AEI'', ''BF'', ''C''],
          highlighted = [[''A'', ''B'', ''C''], [''D'', ''E'', ''F''], [''G'', ''H'', ''I'']]\<rparr> \<and>
   rearranges [''ABC'', ''DEF'', ''GHI''] [''A'', ''DB'', ''GEC'', ''HF'', ''I'']
     (\<lambda>n i. fst (up_right_match (length [''ABC'', ''DEF'', ''GHI'']) n (i, True))) \<and>
   length ''DB'' =
     card {(r, c). r < length [''ABC'', ''DEF'', ''GHI''] \<and> c < length ''ABC'' \<and> r + c = 1}"
proof -
  let ?rows = "[''ABC'', ''DEF'', ''GHI'']"
  let ?g = "\<lparr>grid_text = [''ABC'', ''DEF'', ''GHI''],
          columns = [''ADG'', ''BEH'', ''CFI''],
          diag_up_right = [''A'', ''DB'', ''GEC'', ''HF'', ''I''],
          diag_down_right = [''G'', ''DH'', ''AEI'', ''BF'', ''C''],
          highlighted = [[''A'', ''B'', ''C''], [''D'', ''E'', ''F''], [''G'', ''H'', ''I'']]\<rparr>"
  have h1: "wf_rows ?rows" by (simp add: wf_rows_def)
  have h2: "post_init ?rows = Inr ?g" by (rule post_init_example)
  note T = views_rearrange_grid [OF h1 h2, of True]
  from T have a: "rearranges ?rows (diag_up_right ?g)
       (\<lambda>n i. fst (up_right_match (length (grid_text ?g)) n (i, True)))"
    by blast
  from T have "1 < length (diag_up_right ?g) \<longrightarrow> length (diag_up_right ?g ! 1) =
        card {(r, c). r < length ?rows \<and> c < length (hd ?rows) \<and> r + c = 1}"
    by blast
  then have b: "length ''DB'' =
     card {(r, c). r < length [''ABC'', ''DEF'', ''GHI''] \<and> c < length ''ABC'' \<and> r + c = 1}"
    by simp
  from a have a': "rearranges ?rows [''A'', ''DB'', ''GEC'', ''HF'', ''I'']
     (\<lambda>n i. fst (up_right_match (length [''ABC'', ''DEF'', ''GHI'']) n (i, True)))" by simp
  from h1 h2 a' b show ?thesis by blast
qed

subsection \<open>C4: the first match in the scan order\<close>

text \<open>
  Claim C4: on every well-formed grid, when the word occurs in the view \<open>k\<close> of a
  family, in no view of a family that is scanned earlier (rows, then columns, then
  up-right diagonals, then down-right diagonals) and in no view of smaller index of the
  same family, \<^verbatim>\<open>find_word\<close> returns the match in that view: the location that the
  family's loop computes from the offset found by \<^verbatim>\<open>find_in_group\<close>, with the forward
  direction of the family exactly when the word occurs forwards in the view, even if it
  occurs backwards there as well; a forward match is the leftmost forward occurrence.
\<close>

theorem find_word_first_match:
  assumes ok: "grid_ok g"
    and before: "\<forall>f \<in> set (earlier fam). \<forall>v \<in> set (views g f). \<not> occurs word v"
    and k: "k < length (views g fam)"
    and here: "occurs word (views g fam ! k)"
    and least: "\<forall>j<k. \<not> occurs word (views g fam ! j)"
  shows "\<exists>g' idx fwd.
           find_word g word color =
             Inr (g', Some (family_location g fam k idx, family_direction fam fwd)) \<and>
           find_in_group word (views g fam ! k) = Some (idx, fwd) \<and>
           (fwd \<longleftrightarrow> sublist word (views g fam ! k)) \<and>
           (fwd \<longrightarrow> (\<exists>i. idx = int i \<and> forward_at (views g fam ! k) word i \<and>
                          (\<forall>i'<i. \<not> forward_at (views g fam ! k) word i'))) \<and>
           (\<not> fwd \<longrightarrow> (\<exists>j. idx = int j \<and> backward_at (views g fam ! k) word j))"
proof -
  let ?v = "views g fam ! k"
  from here obtain idx fwd where res: "find_in_group word ?v = Some (idx, fwd)"
    using find_in_group_None_iff [of word ?v] by (auto simp: occurs_def)
  from find_in_group_Some [OF res]
  have f: "fwd \<longrightarrow> (\<exists>i. idx = int i \<and> forward_at ?v word i \<and> (\<forall>i'<i. \<not> forward_at ?v word i'))"
    and b: "\<not> fwd \<longrightarrow> (\<exists>j. idx = int j \<and> backward_at ?v word j)"
    and nf: "\<not> fwd \<longrightarrow> \<not> sublist word ?v"
    using first_index_forward [of word ?v] by auto
  from f nf have s: "fwd \<longleftrightarrow> sublist word ?v" by (auto dest: forward_at_sublist)
  let ?m = "(family_location g fam k idx, family_direction fam fwd)"
  have fw: "find_word g word color = mark g word color ?m"
    using before k res least by (rule find_word_by_family)
  from find_word_ok [OF ok, of word color] obtain g' r where
    r: "find_word g word color = Inr (g', r)" by blast
  with fw mark_Inr [of g word color ?m g' r] have "find_word g word color = Inr (g', Some ?m)"
    by simp
  with res s f b show ?thesis by blast
qed

theorem find_word_first_match_witness:
  "sublist ''AB'' ''ABA'' \<and> sublist ''AB'' (rev ''ABA'') \<and>
   (\<exists>g'. find_word
     \<lparr>grid_text = [''XXX'', ''ABA''], columns = [''XA'', ''XB'', ''XA''],
      diag_up_right = [''X'', ''AX'', ''BX'', ''A''],
      diag_down_right = [''A'', ''XB'', ''XA'', ''X''],
      highlighted = [[''X'', ''X'', ''X''], [''A'', ''B'', ''A'']]\<rparr>
     ''AB'' ''*'' = Inr (g', Some (Location 1 0, RIGHT))) \<and>
   occurs ''AB'' ''AB'' \<and> occurs ''AB'' ''BA'' \<and>
   (\<exists>g'. find_word
     \<lparr>grid_text = [''XAA'', ''XBB''], columns = [''XX'', ''AB'', ''AB''],
      diag_up_right = [''X'', ''XA'', ''BA'', ''B''],
      diag_down_right = [''X'', ''XB'', ''AB'', ''A''],
      highlighted = [[''X'', ''A'', ''A''], [''X'', ''B'', ''B'']]\<rparr>
     ''AB'' ''*'' = Inr (g', Some (Location 0 1, DOWN)))"
proof -
  let ?g = "\<lparr>grid_text = [''XXX'', ''ABA''], columns = [''XA'', ''XB'', ''XA''],
      diag_up_right = [''X'', ''AX'', ''BX'', ''A''],
      diag_down_right = [''A'', ''XB'', ''XA'', ''X''],
      highlighted = [[''X'', ''X'', ''X''], [''A'', ''B'', ''A'']]\<rparr>"
  let ?h = "\<lparr>grid_text = [''XAA'', ''XBB''], columns = [''XX'', ''AB'', ''AB''],
      diag_up_right = [''X'', ''XA'', ''BA'', ''B''],
      diag_down_right = [''X'', ''XB'', ''AB'', ''A''],
      highlighted = [[''X'', ''A'', ''A''], [''X'', ''B'', ''B'']]\<rparr>"
  have t1: "sublist ''AB'' ''ABA''" "sublist ''AB'' (rev ''ABA'')"
    by (simp_all add: sublist_Cons_right)
  have t2: "occurs ''AB'' ''AB''" "occurs ''AB'' ''BA''"
    by (simp_all add: occurs_def sublist_Cons_right)
  have a1: "\<forall>f \<in> set (earlier Row). \<forall>v \<in> set (views ?g f). \<not> occurs ''AB'' v" by simp
  have a2: "1 < length (views ?g Row)" by simp
  have a3: "occurs ''AB'' (views ?g Row ! 1)" by (simp add: occurs_def sublist_Cons_right)
  have a4: "\<forall>j<1. \<not> occurs ''AB'' (views ?g Row ! j)"
    by (simp add: occurs_def sublist_Cons_right)
  have a5: "find_in_group ''AB'' ''ABA'' = Some (0, True)" by code_simp
  from find_word_first_match [OF grid_ok_both_ways a1 a2 a3 a4, of "''*''"] a5
  have a: "\<exists>g'. find_word ?g ''AB'' ''*'' = Inr (g', Some (Location 1 0, RIGHT))"
    by (auto simp: row_match_def)
  have b1: "\<forall>f \<in> set (earlier Column). \<forall>v \<in> set (views ?h f). \<not> occurs ''AB'' v"
    by (simp add: occurs_def sublist_Cons_right)
  have b2: "1 < length (views ?h Column)" by simp
  have b3: "occurs ''AB'' (views ?h Column ! 1)" by (simp add: occurs_def sublist_Cons_right)
  have b4: "\<forall>j<1. \<not> occurs ''AB'' (views ?h Column ! j)"
    by (simp add: occurs_def sublist_Cons_right)
  have b5: "find_in_group ''AB'' ''AB'' = Some (0, True)" by code_simp
  from find_word_first_match [OF grid_ok_several_views b1 b2 b3 b4, of "''*''"] b5
  have b: "\<exists>g'. find_word ?h ''AB'' ''*'' = Inr (g', Some (Location 0 1, DOWN))"
    by (auto simp: column_match_def)
  from t1 t2 a b show ?thesis by blast
qed

subsection \<open>C5: matches stay within the grid\<close>

text \<open>
  Claim C5 says that the start location of every match returned on a well-formed grid is
  within the bounds of the grid. On a grid whose rows are empty strings the empty word
  is matched at row 0, column 0, and the grid has no column 0.
\<close>

theorem find_word_start_counterexample:
  "wf_rows [''''] \<and>
   post_init [''''] =
     Inr \<lparr>grid_text = [''''], columns = [], diag_up_right = [], diag_down_right = [],
          highlighted = [[]]\<rparr> \<and>
   find_word \<lparr>grid_text = [''''], columns = [], diag_up_right = [], diag_down_right = [],
          highlighted = [[]]\<rparr> [] ''red'' =
     Inr (\<lparr>grid_text = [''''], columns = [], diag_up_right = [], diag_down_right = [],
          highlighted = [[]]\<rparr>, Some (Location 0 0, RIGHT)) \<and>
   \<not> in_bounds [''''] (Location 0 0)"
  by (simp add: wf_rows_def in_bounds_def find_word_Nil) code_simp

text \<open>
  Claim C5, amended: on every well-formed grid (as constructed, or after earlier
  searches) \<^verbatim>\<open>find_word\<close> returns normally, without an out-of-bounds access in the
  highlighting; whenever it returns a match, every one of the \<open>wordLength\<close> cells
  reached by stepping from the start location along the returned direction is within
  the bounds of the grid and is read without error, and the start location itself is
  within bounds when the word is not empty or the grid has at least one column.
\<close>

theorem find_word_within_bounds:
  assumes "grid_ok g"
  shows "(\<exists>g' res. find_word g word color = Inr (g', res)) \<and>
         (\<forall>g' start dir. find_word g word color = Inr (g', Some (start, dir)) \<longrightarrow>
            (\<forall>t<length word.
               in_bounds (grid_text g) (step_from start dir t) \<and>
               (\<exists>letter. grid_at (grid_text g) (step_from start dir t) = Inr letter)) \<and>
            (word \<noteq> [] \<or> 0 < length (hd (grid_text g)) \<longrightarrow> in_bounds (grid_text g) start))"
proof -
  note wf = grid_ok_views(1) [OF assms]
  from find_word_ok [OF assms, of word color]
  have ex: "\<exists>g' res. find_word g word color = Inr (g', res)" by blast
  have cells: "in_bounds (grid_text g) (step_from start dir t) \<and>
               (\<exists>letter. grid_at (grid_text g) (step_from start dir t) = Inr letter)"
    if "find_word g word color = Inr (g', Some (start, dir))" "t < length word"
    for g' start dir t
  proof -
    from find_word_ok [OF assms, of word color] that
    have "in_bounds (grid_text g) (step_from start dir t)" by auto
    with grid_at_in_bounds [OF wf] show ?thesis by blast
  qed
  have start: "in_bounds (grid_text g) start"
    if f: "find_word g word color = Inr (g', Some (start, dir))"
      and h: "word \<noteq> [] \<or> 0 < length (hd (grid_text g))"
    for g' start dir
  proof (cases "word = []")
    case True
    from wf have ne: "grid_text g \<noteq> []" by (simp add: wf_rows_def)
    from find_word_Nil [OF ne, of color] f True have "start = Location 0 0" by simp
    with h True ne show ?thesis by (simp add: in_bounds_def)
  next
    case False
    then have "0 < length word" by simp
    from cells [OF f this] show ?thesis by simp
  qed
  from ex cells start show ?thesis by blast
qed

theorem find_word_within_bounds_witness:
  "grid_ok \<lparr>grid_text = [''ABC'', ''DEF'', ''GHI''],
      columns = [''ADG'', ''BEH'', ''CFI''],
      diag_up_right = [''A'', ''DB'', ''GEC'', ''HF'', ''I''],
      diag_down_right = [''G'', ''DH'', ''AEI'', ''BF'', ''C''],
      highlighted = [[''A'', ''B'', ''C''], [''D'', ''E'', ''F''], [''G'', ''H'', ''I'']]\<rparr> \<and>
   in_bounds [''ABC'', ''DEF'', ''GHI''] (Location 0 2) \<and>
   in_bounds [''ABC'', ''DEF'', ''GHI''] (step_from (Location 0 2) ANGLED_DOWN_LEFT 2)"
proof -
  let ?g = "\<lparr>grid_text = [''ABC'', ''DEF'', ''GHI''],
      columns = [''ADG'', ''BEH'', ''CFI''],
      diag_up_right = [''A'', ''DB'', ''GEC'', ''HF'', ''I''],
      diag_down_right = [''G'', ''DH'', ''AEI'', ''BF'', ''C''],
      highlighted = [[''A'', ''B'', ''C''], [''D'', ''E'', ''F''], [''G'', ''H'', ''I'']]\<rparr>"
  note T = find_word_within_bounds [OF grid_ok_example, of "''CEG''" "''*''"]
  from T find_word_example
  have a: "\<forall>t<length ''CEG''. in_bounds (grid_text ?g) (step_from (Location 0 2) ANGLED_DOWN_LEFT t)"
    and b: "''CEG'' \<noteq> [] \<or> 0 < length (hd (grid_text ?g)) \<longrightarrow> in_bounds (grid_text ?g) (Location 0 2)"
    by blast+
  from a have "in_bounds (grid_text ?g) (step_from (Location 0 2) ANGLED_DOWN_LEFT 2)" by simp
  moreover from b have "in_bounds (grid_text ?g) (Location 0 2)" by simp
  ultimately show ?thesis using grid_ok_example by simp
qed

subsection \<open>C8: the cells that a match marks\<close>



end
